theory Spec2Isabelle
  imports Complex_Main "HOL-Library.Log_Nat"
begin

section \<open>ID-photo cropper: geometry and size-constrained JPEG search\<close>

text \<open>
  A shallow embedding of the algorithmic parts of \<^verbatim>\<open>src/app/page.tsx\<close>: the crop
  geometry (\<^verbatim>\<open>autoAlign\<close>, \<^verbatim>\<open>nudgeFaceY\<close>), the two nested fixed-iteration binary
  searches (\<^verbatim>\<open>encodeJpegUnder2MB\<close>, \<^verbatim>\<open>findBestSizeAndEncode\<close>) and the sequence-number
  guard of the preview estimate.

  Numbers. A JavaScript \<^verbatim>\<open>number\<close> is an IEEE-754 double. Here it is the
  \<^typ>\<open>real\<close> that the double stands for, and \<open>fl\<close> below rounds a real to the nearest
  double, as each arithmetic operation of the code does.
  \<^item> The two searches are in double arithmetic: the quality and scale midpoints and
    the pixel sizes \<^verbatim>\<open>Math.floor(maxW * s)\<close> are rounded operation by operation,
    because the quality and the size that the searches return depend on the last bit
    of the midpoint. So is \<open>nudgeFaceY_double\<close>, the second embedding of
    \<^verbatim>\<open>nudgeFaceY\<close>, for the question whether the \<^verbatim>\<open>crop.x\<close> it writes is the one it
    read.
  \<^item> The size of the fallback branch and the crop geometry are in exact arithmetic,
    without the rounding of doubles and without \<^verbatim>\<open>NaN\<close> or \<^verbatim>\<open>Infinity\<close>. The
    fallback height is the same in doubles for every width up to \<open>2 ^ 40\<close> in
    absolute value (\<open>fallback_height_double\<close> below); what is proved of the geometry are ranges, a
    concrete overshoot of a quarter of a pixel, and an identity that its claim states
    for exact arithmetic. Where the code divides, the theorems that depend on the
    quotient assume a divisor other than zero, since HOL's \<open>x / 0 = 0\<close> is not what
    JavaScript computes.
  Values that the code has passed through \<^verbatim>\<open>Math.floor\<close> or \<^verbatim>\<open>Math.round\<close> are
  \<^typ>\<open>int\<close>; the natural size of a decoded image and the byte size of a blob are
  \<^typ>\<open>nat\<close>.
\<close>

subsection \<open>Constants\<close>

definition ASPECT_W :: real where
  "ASPECT_W = 3"

definition ASPECT_H :: real where
  "ASPECT_H = 4"

definition TARGET_AR :: real where
  "TARGET_AR = ASPECT_W / ASPECT_H"

definition MAX_BYTES :: nat where
  "MAX_BYTES = 2 * 1024 * 1024"

definition DESIRED_FACE_FRAC :: real where
  "DESIRED_FACE_FRAC = 0.48"

text \<open>\<^verbatim>\<open>Math.round\<close> rounds to the nearest integer, a half towards plus infinity.\<close>

definition Math_round :: "real \<Rightarrow> int" where
  "Math_round v = \<lfloor>v + 1 / 2\<rfloor>"

definition Math_floor :: "real \<Rightarrow> int" where
  "Math_floor v = \<lfloor>v\<rfloor>"

subsection \<open>Double arithmetic\<close>

text \<open>
  Rounding to the nearest double, ties to the even significand: a positive \<open>a\<close> with
  \<open>2 ^ e \<le> a < 2 ^ (e + 1)\<close> is rounded to a multiple of \<open>2 ^ (e - 52)\<close>, so that 53
  bits are kept. The exponent is not bounded: every number that the code below meets
  is far from the overflow and underflow of doubles.
\<close>

definition round_half_even :: "real \<Rightarrow> int" where
  "round_half_even y =
     (let f = \<lfloor>y\<rfloor>; r = y - of_int f
      in if r < 1 / 2 then f
         else if 1 / 2 < r then f + 1
         else if even f then f else f + 1)"

definition exponent :: "real \<Rightarrow> int" where
  "exponent a = (if 1 \<le> a then bitlen \<lfloor>a\<rfloor> - 1 else - bitlen (\<lceil>1 / a\<rceil> - 1))"

definition ulp :: "real \<Rightarrow> real" where
  "ulp a = 2 powi (exponent a - 52)"

definition fl :: "real \<Rightarrow> real" where
  "fl x =
     (if x = 0 then 0
      else let a = \<bar>x\<bar>
           in sgn x * (of_int (round_half_even (a / ulp a)) * ulp a))"

subsection \<open>Data\<close>

text \<open>A decoded \<^verbatim>\<open>HTMLImageElement\<close>: its natural size and the URL it was loaded from.\<close>

record image =
  naturalWidth :: nat
  naturalHeight :: nat
  image_src :: string

text \<open>\<^verbatim>\<open>Area\<close> of the crop widget, in source pixels.\<close>

record area =
  area_x :: real
  area_y :: real
  area_width :: real
  area_height :: real

text \<open>
  A canvas after \<^verbatim>\<open>drawImage(image, x, y, width, height, 0, 0, w, h)\<close>: its pixel size
  and what was drawn into it.
\<close>

record canvas =
  canvas_width :: int
  canvas_height :: int
  drawn_image :: image
  drawn_rect :: area

record blob =
  blob_size :: nat
  blob_type :: string

text \<open>
  \<^verbatim>\<open>makeJpegBlob(canvas, q)\<close> is the browser's JPEG encoder. It is a parameter of the
  model: any total function from a canvas and a quality to a blob.
\<close>

type_synonym encoder = "canvas \<Rightarrow> real \<Rightarrow> blob"

text \<open>The pair \<^verbatim>\<open>{ blob, q }\<close> and the quadruple \<^verbatim>\<open>{ blob, q, w, h }\<close>.\<close>

record enc_result =
  enc_blob :: blob
  enc_q :: real

record size_result =
  res_blob :: blob
  res_q :: real
  res_w :: int
  res_h :: int

text \<open>Dereferencing \<^verbatim>\<open>null\<close> raises a \<^verbatim>\<open>TypeError\<close>.\<close>

datatype error = TypeError

subsection \<open>Inner search: encoder quality\<close>

text \<open>
  The loop \<^verbatim>\<open>for (let i = 0; i < 8; i++)\<close> of \<^verbatim>\<open>encodeJpegUnder2MB\<close>, with the number
  of iterations left as the recursion argument and \<^verbatim>\<open>lo\<close>, \<^verbatim>\<open>hi\<close>, \<^verbatim>\<open>best\<close> as the
  loop state; \<^verbatim>\<open>best\<close> is \<^verbatim>\<open>null\<close> (\<open>None\<close>) until a midpoint fits. The midpoint
  \<^verbatim>\<open>(lo + hi) / 2\<close> is in double arithmetic: the sum is rounded, then the quotient. The
  literal \<^verbatim>\<open>0.95\<close> is the double nearest to it; \<^verbatim>\<open>0.5\<close> is a double.
\<close>

fun quality_loop ::
  "encoder \<Rightarrow> canvas \<Rightarrow> nat \<Rightarrow> real \<Rightarrow> real \<Rightarrow> enc_result option \<Rightarrow> enc_result option" where
  "quality_loop mk c 0 lo hi best = best"
| "quality_loop mk c (Suc n) lo hi best =
     (let q = fl (fl (lo + hi) / 2);
          b = mk c q
      in if blob_size b \<le> MAX_BYTES
         then quality_loop mk c n q hi (Some \<lparr>enc_blob = b, enc_q = q\<rparr>)
         else quality_loop mk c n lo q best)"

definition encodeJpegUnder2MB :: "encoder \<Rightarrow> canvas \<Rightarrow> enc_result option" where
  "encodeJpegUnder2MB mk c =
     (let best = quality_loop mk c 8 0.5 (fl 0.95) None
      in if best = None
         then Some \<lparr>enc_blob = mk c 0.5, enc_q = 0.5\<rparr>
         else best)"

text \<open>
  The qualities the loop encodes at, in the order it tries them. The code keeps no such
  list; it is the trace of the loop above, with the same branching.
\<close>

fun quality_samples :: "encoder \<Rightarrow> canvas \<Rightarrow> nat \<Rightarrow> real \<Rightarrow> real \<Rightarrow> real list" where
  "quality_samples mk c 0 lo hi = []"
| "quality_samples mk c (Suc n) lo hi =
     (let q = fl (fl (lo + hi) / 2)
      in q # (if blob_size (mk c q) \<le> MAX_BYTES
              then quality_samples mk c n q hi
              else quality_samples mk c n lo q))"

definition sampled_qualities :: "encoder \<Rightarrow> canvas \<Rightarrow> real list" where
  "sampled_qualities mk c = quality_samples mk c 8 0.5 (fl 0.95)"

definition fits_budget :: "encoder \<Rightarrow> canvas \<Rightarrow> real \<Rightarrow> bool" where
  "fits_budget mk c q = (blob_size (mk c q) \<le> MAX_BYTES)"

subsection \<open>Outer search: output resolution\<close>

text \<open>
  \<^verbatim>\<open>document.createElement('canvas')\<close>, the assignment of its size and the
  \<^verbatim>\<open>drawImage\<close> call, which the code repeats in each search.
\<close>

definition draw_canvas :: "image \<Rightarrow> area \<Rightarrow> int \<Rightarrow> int \<Rightarrow> canvas" where
  "draw_canvas img cropPx w h =
     \<lparr>canvas_width = w, canvas_height = h, drawn_image = img, drawn_rect = cropPx\<rparr>"

text \<open>
  The loop \<^verbatim>\<open>for (let i = 0; i < 8; i++)\<close> of \<^verbatim>\<open>findBestSizeAndEncode\<close>, in double
  arithmetic: \<^verbatim>\<open>(lo + hi) / 2\<close> rounds the sum and then the quotient, \<^verbatim>\<open>maxW * s\<close>
  rounds the product. \<^verbatim>\<open>enc.blob\<close> on a \<^verbatim>\<open>null\<close> result of \<^verbatim>\<open>encodeJpegUnder2MB\<close>
  would raise.
\<close>

fun scale_loop ::
  "encoder \<Rightarrow> image \<Rightarrow> area \<Rightarrow> int \<Rightarrow> int \<Rightarrow> nat \<Rightarrow> real \<Rightarrow> real \<Rightarrow>
   size_result option \<Rightarrow> error + size_result option" where
  "scale_loop mk img cropPx maxW maxH 0 lo hi best = Inr best"
| "scale_loop mk img cropPx maxW maxH (Suc n) lo hi best =
     (let s = fl (fl (lo + hi) / 2);
          w = max 1 (Math_floor (fl (of_int maxW * s)));
          h = max 1 (Math_floor (fl (of_int maxH * s)));
          c = draw_canvas img cropPx w h
      in case encodeJpegUnder2MB mk c of
           None \<Rightarrow> Inl TypeError
         | Some enc \<Rightarrow>
             if blob_size (enc_blob enc) \<le> MAX_BYTES
             then scale_loop mk img cropPx maxW maxH n s hi
                    (Some \<lparr>res_blob = enc_blob enc, res_q = enc_q enc, res_w = w, res_h = h\<rparr>)
             else scale_loop mk img cropPx maxW maxH n lo s best)"

definition findBestSizeAndEncode ::
  "encoder \<Rightarrow> image \<Rightarrow> area \<Rightarrow> error + size_result option" where
  "findBestSizeAndEncode mk img cropPx =
     (let srcW = Math_floor (area_width cropPx);
          srcH = Math_floor (area_height cropPx);
          maxW = srcW;
          maxH = srcH
      in case scale_loop mk img cropPx maxW maxH 8 (fl 0.2) 1.0 None of
           Inl e \<Rightarrow> Inl e
         | Inr best \<Rightarrow>
             if best = None
             then (let targetW = min 800 maxW;
                       targetH = Math_round (of_int targetW * (ASPECT_H / ASPECT_W));
                       c = draw_canvas img cropPx targetW targetH
                   in case encodeJpegUnder2MB mk c of
                        None \<Rightarrow> Inl TypeError
                      | Some enc \<Rightarrow>
                          Inr (Some \<lparr>res_blob = enc_blob enc, res_q = enc_q enc,
                                     res_w = targetW, res_h = targetH\<rparr>))
             else Inr best)"

text \<open>
  What one iteration of the outer loop computes at scale \<open>s\<close>: the canvas it encodes,
  whether the encoding it gets back is within the budget, and the record it stores in
  \<^verbatim>\<open>best\<close> then.
\<close>

definition canvas_at :: "image \<Rightarrow> area \<Rightarrow> int \<Rightarrow> int \<Rightarrow> real \<Rightarrow> canvas" where
  "canvas_at img cropPx maxW maxH s =
     draw_canvas img cropPx (max 1 (Math_floor (fl (of_int maxW * s))))
       (max 1 (Math_floor (fl (of_int maxH * s))))"

definition fits_scale :: "encoder \<Rightarrow> image \<Rightarrow> area \<Rightarrow> int \<Rightarrow> int \<Rightarrow> real \<Rightarrow> bool" where
  "fits_scale mk img cropPx maxW maxH s =
     (case encodeJpegUnder2MB mk (canvas_at img cropPx maxW maxH s) of
        None \<Rightarrow> False
      | Some enc \<Rightarrow> blob_size (enc_blob enc) \<le> MAX_BYTES)"

text \<open>
  The scales the outer loop tries, in order: the trace of \<open>scale_loop\<close>, with the same
  branching.
\<close>

fun scale_samples ::
  "encoder \<Rightarrow> image \<Rightarrow> area \<Rightarrow> int \<Rightarrow> int \<Rightarrow> nat \<Rightarrow> real \<Rightarrow> real \<Rightarrow> real list" where
  "scale_samples mk img cropPx maxW maxH 0 lo hi = []"
| "scale_samples mk img cropPx maxW maxH (Suc n) lo hi =
     (let s = fl (fl (lo + hi) / 2)
      in s # (if fits_scale mk img cropPx maxW maxH s
              then scale_samples mk img cropPx maxW maxH n s hi
              else scale_samples mk img cropPx maxW maxH n lo s))"

definition sampled_scales :: "encoder \<Rightarrow> image \<Rightarrow> area \<Rightarrow> real list" where
  "sampled_scales mk img cropPx =
     scale_samples mk img cropPx (Math_floor (area_width cropPx))
       (Math_floor (area_height cropPx)) 8 (fl 0.2) 1.0"

definition fitting_scales :: "encoder \<Rightarrow> image \<Rightarrow> area \<Rightarrow> real list" where
  "fitting_scales mk img cropPx =
     filter (fits_scale mk img cropPx (Math_floor (area_width cropPx))
               (Math_floor (area_height cropPx)))
       (sampled_scales mk img cropPx)"

text \<open>
  The record the outer loop stores in \<^verbatim>\<open>best\<close> at a scale that fits, and the record
  the final fallback branch builds.
\<close>

definition best_at ::
  "encoder \<Rightarrow> image \<Rightarrow> area \<Rightarrow> int \<Rightarrow> int \<Rightarrow> real \<Rightarrow> size_result option" where
  "best_at mk img cropPx maxW maxH s =
     (case encodeJpegUnder2MB mk (canvas_at img cropPx maxW maxH s) of
        None \<Rightarrow> None
      | Some enc \<Rightarrow>
          Some \<lparr>res_blob = enc_blob enc, res_q = enc_q enc,
                res_w = max 1 (Math_floor (fl (of_int maxW * s))),
                res_h = max 1 (Math_floor (fl (of_int maxH * s)))\<rparr>)"

definition fallback_result :: "encoder \<Rightarrow> image \<Rightarrow> area \<Rightarrow> size_result option" where
  "fallback_result mk img cropPx =
     (let targetW = min 800 (Math_floor (area_width cropPx));
          targetH = Math_round (of_int targetW * (ASPECT_H / ASPECT_W))
      in case encodeJpegUnder2MB mk (draw_canvas img cropPx targetW targetH) of
           None \<Rightarrow> None
         | Some enc \<Rightarrow>
             Some \<lparr>res_blob = enc_blob enc, res_q = enc_q enc,
                   res_w = targetW, res_h = targetH\<rparr>)"

subsection \<open>Page state and crop geometry\<close>

text \<open>\<^verbatim>\<open>DetectBox\<close> when it is not \<^verbatim>\<open>null\<close>.\<close>

record detect_box =
  box_x :: real
  box_y :: real
  box_width :: real
  box_height :: real

text \<open>The \<^verbatim>\<open>crop\<close> state \<^verbatim>\<open>{ x, y }\<close>, in percent of the image size.\<close>

record crop_point =
  crop_x :: real
  crop_y :: real

text \<open>
  The \<^verbatim>\<open>useState\<close> and \<^verbatim>\<open>useRef\<close> cells of the page that the functions below read or
  write.
\<close>

record page_state =
  imgEl :: "image option"
  crop :: crop_point
  zoom :: real
  croppedAreaPx :: "area option"
  faceYFrac :: real
  outWidth :: int
  outHeight :: int
  estimateSeq :: nat

text \<open>
  \<^verbatim>\<open>(W / TARGET_AR <= H) ? Math.round(W / TARGET_AR) : H\<close>, which \<^verbatim>\<open>autoAlign\<close> and
  \<^verbatim>\<open>nudgeFaceY\<close> both compute.
\<close>

definition baseH :: "image \<Rightarrow> real" where
  "baseH img =
     (let W = real (naturalWidth img); H = real (naturalHeight img)
      in if W / TARGET_AR \<le> H then of_int (Math_round (W / TARGET_AR)) else H)"

text \<open>
  \<^verbatim>\<open>autoAlign\<close>, with the answer of \<^verbatim>\<open>detectFace\<close> as an argument. The code awaits the
  detector and then writes \<^verbatim>\<open>zoom\<close> and \<^verbatim>\<open>crop\<close>; the model is that transition.
\<close>

definition autoAlign :: "detect_box option \<Rightarrow> page_state \<Rightarrow> page_state" where
  "autoAlign face st =
     (case imgEl st of
        None \<Rightarrow> st
      | Some img \<Rightarrow>
          (let W = real (naturalWidth img);
               H = real (naturalHeight img);
               bH = baseH img;
               desiredH = (case face of
                             None \<Rightarrow> bH
                           | Some f \<Rightarrow>
                               max 32 (min H (of_int (Math_round (box_height f / DESIRED_FACE_FRAC)))));
               initZoom = max 1 (min 5 (bH / desiredH));
               cx = (case face of None \<Rightarrow> W / 2 | Some f \<Rightarrow> box_x f + box_width f / 2);
               cy = (case face of None \<Rightarrow> H / 2 | Some f \<Rightarrow> box_y f + box_height f / 2);
               viewH = bH / initZoom;
               viewW = viewH * TARGET_AR;
               left0 = cx - viewW / 2;
               top0 = cy - faceYFrac st * viewH;
               left = max 0 (min left0 (W - viewW));
               top = max 0 (min top0 (H - viewH));
               offsetX = - (left / W) * 100;
               offsetY = - (top / H) * 100
           in st\<lparr>zoom := initZoom, crop := \<lparr>crop_x = offsetX, crop_y = offsetY\<rparr>\<rparr>))"

text \<open>
  The view rectangle that a state stands for, as \<^verbatim>\<open>nudgeFaceY\<close> reads it back:
  \<^verbatim>\<open>viewH = baseH / zoom\<close>, \<^verbatim>\<open>curLeft = -crop.x * 0.01 * W\<close>,
  \<^verbatim>\<open>curTop = -crop.y * 0.01 * H\<close>, and the width \<^verbatim>\<open>viewH * TARGET_AR\<close>.
\<close>

definition viewH :: "image \<Rightarrow> page_state \<Rightarrow> real" where
  "viewH img st = baseH img / zoom st"

definition viewW :: "image \<Rightarrow> page_state \<Rightarrow> real" where
  "viewW img st = viewH img st * TARGET_AR"

definition curLeft :: "image \<Rightarrow> page_state \<Rightarrow> real" where
  "curLeft img st = - crop_x (crop st) * 0.01 * real (naturalWidth img)"

definition curTop :: "image \<Rightarrow> page_state \<Rightarrow> real" where
  "curTop img st = - crop_y (crop st) * 0.01 * real (naturalHeight img)"

text \<open>The local \<^verbatim>\<open>newTop\<close> of \<^verbatim>\<open>nudgeFaceY\<close>.\<close>

definition newTop :: "real \<Rightarrow> image \<Rightarrow> page_state \<Rightarrow> real" where
  "newTop v img st =
     (let H = real (naturalHeight img);
          cyApprox = curTop img st + faceYFrac st * viewH img st
      in max 0 (min (cyApprox - v * viewH img st) (H - viewH img st)))"

definition nudgeFaceY :: "real \<Rightarrow> page_state \<Rightarrow> page_state" where
  "nudgeFaceY v st =
     (let st1 = st\<lparr>faceYFrac := v\<rparr>
      in case imgEl st of
           None \<Rightarrow> st1
         | Some img \<Rightarrow>
             (let W = real (naturalWidth img);
                  H = real (naturalHeight img);
                  offsetX = - (curLeft img st / W) * 100;
                  offsetY = - (newTop v img st / H) * 100
              in st1\<lparr>crop := \<lparr>crop_x = offsetX, crop_y = offsetY\<rparr>\<rparr>))"

text \<open>
  \<^verbatim>\<open>nudgeFaceY\<close> in double arithmetic, every product, quotient, sum and difference
  rounded; the negations, \<^verbatim>\<open>Math.max\<close>, \<^verbatim>\<open>Math.min\<close> and \<^verbatim>\<open>Math.round\<close> are exact, and
  so is \<^verbatim>\<open>TARGET_AR\<close>, three quarters. The fields of the state and \<open>v\<close> are taken to be
  doubles. For \<open>W = 0\<close> or \<open>H = 0\<close> the code computes \<^verbatim>\<open>NaN\<close>, which this definition
  does not model.
\<close>

definition baseH_double :: "image \<Rightarrow> real" where
  "baseH_double img =
     (let W = real (naturalWidth img); H = real (naturalHeight img)
      in if fl (W / TARGET_AR) \<le> H then of_int (Math_round (fl (W / TARGET_AR))) else H)"

definition nudgeFaceY_double :: "real \<Rightarrow> page_state \<Rightarrow> page_state" where
  "nudgeFaceY_double v st =
     (let st1 = st\<lparr>faceYFrac := v\<rparr>
      in case imgEl st of
           None \<Rightarrow> st1
         | Some img \<Rightarrow>
             (let W = real (naturalWidth img);
                  H = real (naturalHeight img);
                  bH = baseH_double img;
                  vH = fl (bH / zoom st);
                  cLeft = fl (fl (- crop_x (crop st) * fl 0.01) * W);
                  cTop = fl (fl (- crop_y (crop st) * fl 0.01) * H);
                  cyApprox = fl (cTop + fl (faceYFrac st * vH));
                  nTop = max 0 (min (fl (cyApprox - fl (v * vH))) (fl (H - vH)));
                  offsetX = fl (- fl (cLeft / W) * 100);
                  offsetY = fl (- fl (nTop / H) * 100)
              in st1\<lparr>crop := \<lparr>crop_x = offsetX, crop_y = offsetY\<rparr>\<rparr>))"

subsection \<open>Preview estimate and its sequence number\<close>

text \<open>
  The effect that starts a preview estimate takes \<^verbatim>\<open>mySeq = ++estimateSeq.current\<close>;
  when \<^verbatim>\<open>findBestSizeOnly\<close> has returned \<^verbatim>\<open>best\<close>, the callback writes the displayed
  size unless \<^verbatim>\<open>estimateSeq.current !== mySeq\<close>. Both run to completion on the one
  event-loop thread, so an execution is a sequence of these two steps in any order. The
  file name the callback also sets, under the same guard, is not part of the state here.
\<close>

definition issue_estimate :: "page_state \<Rightarrow> page_state" where
  "issue_estimate st =
     (if imgEl st = None \<or> croppedAreaPx st = None then st
      else st\<lparr>estimateSeq := estimateSeq st + 1\<rparr>)"

definition complete_estimate :: "nat \<Rightarrow> int \<times> int \<Rightarrow> page_state \<Rightarrow> page_state" where
  "complete_estimate mySeq best st =
     (if estimateSeq st \<noteq> mySeq then st
      else st\<lparr>outWidth := fst best, outHeight := snd best\<rparr>)"

datatype event = Issue | Complete nat "int \<times> int"

fun step :: "event \<Rightarrow> page_state \<Rightarrow> page_state" where
  "step Issue st = issue_estimate st"
| "step (Complete mySeq best) st = complete_estimate mySeq best st"

fun run :: "event list \<Rightarrow> page_state \<Rightarrow> page_state" where
  "run [] st = st"
| "run (e # es) st = run es (step e st)"

text \<open>A completion whose tag is older than the counter value \<open>n\<close>.\<close>

fun stale :: "nat \<Rightarrow> event \<Rightarrow> bool" where
  "stale n Issue = False"
| "stale n (Complete mySeq best) = (mySeq < n)"

subsection \<open>Example inputs\<close>

text \<open>
  Concrete inputs on which the theorems below are instantiated: a 600\<times>800 canvas drawn
  from a 1200\<times>1600 crop of a 3000\<times>4000 photo, and an encoder whose output grows
  linearly with the quality, past the budget from quality 0.7 on.
\<close>

definition ex_image :: image where
  "ex_image = \<lparr>naturalWidth = 3000, naturalHeight = 4000, image_src = ''blob:photo''\<rparr>"

definition ex_crop :: area where
  "ex_crop = \<lparr>area_x = 0, area_y = 0, area_width = 1200, area_height = 1600\<rparr>"

definition ex_canvas :: canvas where
  "ex_canvas = draw_canvas ex_image ex_crop 600 800"

definition ex_encoder :: encoder where
  "ex_encoder c q = \<lparr>blob_size = nat \<lfloor>q * 3000000\<rfloor>, blob_type = ''image/jpeg''\<rparr>"

text \<open>
  An encoder whose output never fits the budget, and one whose output fits exactly
  when the canvas is at most 390 pixels wide; a crop region of 600\<times>800 pixels, and
  one of 302\<times>402 pixels, which is 3:4 up to rounding.
\<close>

definition over_encoder :: encoder where
  "over_encoder c q = \<lparr>blob_size = 3000000, blob_type = ''image/jpeg''\<rparr>"

definition width_encoder :: encoder where
  "width_encoder c q =
     \<lparr>blob_size = (if canvas_width c \<le> 390 then 1000000 else 3000000),
      blob_type = ''image/jpeg''\<rparr>"

definition crop_600_800 :: area where
  "crop_600_800 = \<lparr>area_x = 0, area_y = 0, area_width = 600, area_height = 800\<rparr>"


text \<open>
  States for the geometry: a loaded 1000\<times>1000 raster at zoom 2, with a view of
  375\<times>500 pixels at (125, 120), and a loaded 500\<times>1000 raster before
  \<^verbatim>\<open>autoAlign\<close> has run.
\<close>

definition ex_square :: image where
  "ex_square = \<lparr>naturalWidth = 1000, naturalHeight = 1000, image_src = ''blob:square''\<rparr>"

definition ex_state :: page_state where
  "ex_state =
     \<lparr>imgEl = Some ex_square, crop = \<lparr>crop_x = - 12.5, crop_y = - 12\<rparr>, zoom = 2,
      croppedAreaPx = None, faceYFrac = 0.38, outWidth = 360, outHeight = 480,
      estimateSeq = 0\<rparr>"

definition ex_double_state :: page_state where
  "ex_double_state =
     \<lparr>imgEl = Some ex_square, crop = \<lparr>crop_x = fl (- 24.8), crop_y = - 12\<rparr>, zoom = 2,
      croppedAreaPx = None, faceYFrac = fl 0.38, outWidth = 360, outHeight = 480,
      estimateSeq = 0\<rparr>"

definition ex_narrow :: image where
  "ex_narrow = \<lparr>naturalWidth = 500, naturalHeight = 1000, image_src = ''blob:narrow''\<rparr>"

definition ex_narrow_state :: page_state where
  "ex_narrow_state =
     \<lparr>imgEl = Some ex_narrow, crop = \<lparr>crop_x = 0, crop_y = 0\<rparr>, zoom = 1,
      croppedAreaPx = None, faceYFrac = 0.38, outWidth = 360, outHeight = 480,
      estimateSeq = 0\<rparr>"

text \<open>A state in which a preview estimate can start: a raster and a crop area are set.\<close>

definition ex_ready :: page_state where
  "ex_ready =
     \<lparr>imgEl = Some ex_image, crop = \<lparr>crop_x = 0, crop_y = 0\<rparr>, zoom = 1,
      croppedAreaPx = Some ex_crop, faceYFrac = 0.38, outWidth = 360, outHeight = 480,
      estimateSeq = 0\<rparr>"

section \<open>Properties of the rounding to doubles\<close>

text \<open>
  What the search needs of \<open>fl\<close>: it is monotone, its relative error is at most
  \<open>2 ^ -53\<close>, it leaves the integers up to \<open>2 ^ 53\<close> as they are, and it can be evaluated
  at a number whose binade is known.
\<close>

lemma round_half_even_cases:
  "round_half_even y = \<lfloor>y\<rfloor> \<or> round_half_even y = \<lfloor>y\<rfloor> + 1"
  by (simp add: round_half_even_def Let_def)

lemma round_half_even_error: "\<bar>of_int (round_half_even y) - y\<bar> \<le> 1 / 2"
proof -
  have "0 \<le> y - of_int \<lfloor>y\<rfloor>" "y - of_int \<lfloor>y\<rfloor> < 1"
    by linarith+
  then show ?thesis
    by (auto simp: round_half_even_def Let_def)
qed

lemma round_half_even_of_int [simp]: "round_half_even (of_int k) = k"
  by (simp add: round_half_even_def Let_def)

lemma round_half_even_mono:
  assumes "y \<le> z"
  shows "round_half_even y \<le> round_half_even z"
proof (cases "\<lfloor>y\<rfloor> = \<lfloor>z\<rfloor>")
  case True
  with assms show ?thesis
    by (auto simp: round_half_even_def Let_def)
next
  case False
  with assms have "\<lfloor>y\<rfloor> < \<lfloor>z\<rfloor>"
    using floor_mono [OF assms] by simp
  moreover have "round_half_even y \<le> \<lfloor>y\<rfloor> + 1"
    using round_half_even_cases [of y] by auto
  moreover have "\<lfloor>z\<rfloor> \<le> round_half_even z"
    using round_half_even_cases [of z] by auto
  ultimately show ?thesis by simp
qed

lemma exponent_bounds:
  assumes "0 < a"
  shows "2 powi exponent a \<le> a" and "a < 2 powi (exponent a + 1)"
proof -
  have "2 powi exponent a \<le> a \<and> a < 2 powi (exponent a + 1)"
  proof (cases "1 \<le> a")
    case True
    let ?n = "\<lfloor>a\<rfloor>"
    let ?b = "bitlen ?n"
    from True have n: "0 < ?n" by simp
    from bitlen_bounds [OF n] have lo: "2 ^ nat (?b - 1) \<le> ?n" and hi: "?n < 2 ^ nat ?b"
      by simp_all
    from n have b: "1 \<le> ?b"
      by (simp add: bitlen_alt_def)
    have "real_of_int (2 ^ nat (?b - 1)) \<le> of_int ?n"
      using lo by (simp only: of_int_le_iff)
    also have "\<dots> \<le> a" by simp
    finally have l: "2 ^ nat (?b - 1) \<le> a" by simp
    from hi have "?n + 1 \<le> 2 ^ nat ?b" by simp
    then have "real_of_int (?n + 1) \<le> of_int (2 ^ nat ?b)"
      by (simp only: of_int_le_iff)
    then have "real_of_int ?n + 1 \<le> 2 ^ nat ?b" by simp
    moreover have "a < real_of_int ?n + 1" by linarith
    ultimately have h: "a < 2 ^ nat ?b" by linarith
    from b have "(2::real) powi (?b - 1) = 2 ^ nat (?b - 1)" "(2::real) powi ?b = 2 ^ nat ?b"
      by (simp_all add: power_int_nonneg_exp)
    with l h True show ?thesis
      by (simp add: exponent_def)
  next
    case False
    let ?y = "1 / a"
    let ?m = "\<lceil>?y\<rceil> - 1"
    let ?b = "bitlen ?m"
    from False assms have y: "1 < ?y" by simp
    then have "2 \<le> \<lceil>?y\<rceil>"
      by (simp add: le_ceiling_iff)
    then have m: "0 < ?m" by simp
    from bitlen_bounds [OF m] have lo: "2 ^ nat (?b - 1) \<le> ?m" and hi: "?m < 2 ^ nat ?b"
      by simp_all
    from m have b: "1 \<le> ?b"
      by (simp add: bitlen_alt_def)
    have my: "real_of_int ?m < ?y" "?y \<le> real_of_int ?m + 1"
      by linarith+
    from hi have "?m + 1 \<le> 2 ^ nat ?b" by simp
    then have "real_of_int (?m + 1) \<le> of_int (2 ^ nat ?b)"
      by (simp only: of_int_le_iff)
    then have "real_of_int ?m + 1 \<le> 2 ^ nat ?b" by simp
    with my(2) have "?y \<le> 2 ^ nat ?b" by linarith
    with assms have l: "1 / 2 ^ nat ?b \<le> a"
      by (simp add: field_simps)
    have "real_of_int (2 ^ nat (?b - 1)) \<le> of_int ?m"
      using lo by (simp only: of_int_le_iff)
    then have "2 ^ nat (?b - 1) \<le> real_of_int ?m" by simp
    with my(1) have "2 ^ nat (?b - 1) < ?y" by linarith
    with assms have h: "a < 1 / 2 ^ nat (?b - 1)"
      by (simp add: field_simps)
    from b have "(2::real) powi (- ?b) = 1 / 2 ^ nat ?b"
      by (simp add: power_int_minus_divide power_int_nonneg_exp)
    moreover from b have "(2::real) powi (- ?b + 1) = 1 / 2 ^ nat (?b - 1)"
    proof -
      have "(2::real) powi (- ?b + 1) = 2 powi (- (?b - 1))" by simp
      also from b have "\<dots> = 1 / 2 ^ nat (?b - 1)"
        by (simp only: power_int_minus_divide) (simp add: power_int_nonneg_exp)
      finally show ?thesis .
    qed
    ultimately show ?thesis
      using l h False by (simp add: exponent_def)
  qed
  then show "2 powi exponent a \<le> a" and "a < 2 powi (exponent a + 1)"
    by simp_all
qed

lemma two_powi_less_imp:
  assumes "(2::real) powi m < 2 powi n"
  shows "m < n"
proof (rule ccontr)
  assume "\<not> m < n"
  then have "n \<le> m" by simp
  then have "(2::real) powi n \<le> 2 powi m"
    by (rule power_int_increasing) simp
  with assms show False by simp
qed

lemma exponent_unique:
  assumes "0 < a" and "2 powi e \<le> a" and "a < 2 powi (e + 1)"
  shows "exponent a = e"
proof -
  from exponent_bounds(1) [OF assms(1)] assms(3)
  have "(2::real) powi exponent a < 2 powi (e + 1)" by simp
  then have "exponent a < e + 1" by (rule two_powi_less_imp)
  moreover from assms(2) exponent_bounds(2) [OF assms(1)]
  have "(2::real) powi e < 2 powi (exponent a + 1)" by simp
  then have "e < exponent a + 1" by (rule two_powi_less_imp)
  ultimately show ?thesis by simp
qed

lemma ulp_pos: "0 < ulp a"
  by (simp add: ulp_def zero_less_power_int)

lemma ulp_exponent: "ulp a * 2 ^ 52 = 2 powi exponent a"
proof -
  have "(2::real) powi (exponent a - 52) = 2 powi exponent a / 2 powi 52"
    by (rule power_int_diff) simp
  then show ?thesis by (simp add: ulp_def)
qed

lemma fl_pos: "0 < a \<Longrightarrow> fl a = of_int (round_half_even (a / ulp a)) * ulp a"
  by (simp add: fl_def Let_def)

lemma fl_zero [simp]: "fl 0 = 0"
  by (simp add: fl_def)

lemma fl_minus: "fl (- x) = - fl x"
  by (simp add: fl_def Let_def sgn_minus)

lemma significand_bounds:
  assumes "0 < a"
  shows "2 ^ 52 \<le> a / ulp a" and "a / ulp a < 2 ^ 53"
proof -
  have "ulp a * 2 ^ 52 \<le> a"
    using exponent_bounds(1) [OF assms] ulp_exponent [of a] by simp
  then show "2 ^ 52 \<le> a / ulp a"
    using ulp_pos [of a] by (simp add: le_divide_eq mult.commute)
  have "(2::real) powi (exponent a + 1) = 2 powi exponent a * 2"
    by (simp add: power_int_add)
  with exponent_bounds(2) [OF assms] ulp_exponent [of a] have "a < ulp a * 2 ^ 53"
    by simp
  then show "a / ulp a < 2 ^ 53"
    using ulp_pos [of a] by (simp add: divide_less_eq mult.commute)
qed

lemma fl_error:
  "\<bar>fl x - x\<bar> \<le> \<bar>x\<bar> / 2 ^ 53"
proof -
  have pos: "\<bar>fl a - a\<bar> \<le> a / 2 ^ 53" if a: "0 < a" for a
  proof -
    let ?k = "round_half_even (a / ulp a)"
    have "\<bar>fl a - a\<bar> = \<bar>of_int ?k - a / ulp a\<bar> * ulp a"
    proof -
      have "fl a - a = (of_int ?k - a / ulp a) * ulp a"
        using ulp_pos [of a] by (simp add: fl_pos [OF a] left_diff_distrib)
      then show ?thesis
        using ulp_pos [of a] by (simp add: abs_mult)
    qed
    also have "\<dots> \<le> (1 / 2) * ulp a"
      using round_half_even_error [of "a / ulp a"] ulp_pos [of a]
      by (intro mult_right_mono) simp_all
    also have "\<dots> = ulp a * 2 ^ 52 / 2 ^ 53"
      by simp
    also have "\<dots> \<le> a / 2 ^ 53"
      using exponent_bounds(1) [OF a] ulp_exponent [of a] by (simp add: divide_right_mono)
    finally show ?thesis .
  qed
  consider "x = 0" | "0 < x" | "x < 0" by linarith
  then show ?thesis
  proof cases
    case 1
    then show ?thesis by simp
  next
    case 2
    with pos [OF 2] show ?thesis by simp
  next
    case 3
    then have "0 < - x" by simp
    from pos [OF this] 3 show ?thesis
      by (simp add: fl_minus)
  qed
qed

lemma fl_binade:
  assumes "0 < a"
  shows "2 powi exponent a \<le> fl a" and "fl a \<le> 2 powi (exponent a + 1)"
proof -
  let ?k = "round_half_even (a / ulp a)"
  from significand_bounds [OF assms]
  have "round_half_even (of_int (2 ^ 52)) \<le> ?k" and "?k \<le> round_half_even (of_int (2 ^ 53))"
    by (simp_all add: round_half_even_mono)
  then have k: "2 ^ 52 \<le> ?k" "?k \<le> 2 ^ 53"
    by (simp_all only: round_half_even_of_int)
  from k(1) have "real_of_int (2 ^ 52) \<le> of_int ?k"
    by (simp only: of_int_le_iff)
  then have "2 ^ 52 * ulp a \<le> of_int ?k * ulp a"
    using ulp_pos [of a] by (intro mult_right_mono) simp_all
  then show "2 powi exponent a \<le> fl a"
    using ulp_exponent [of a] by (simp add: fl_pos [OF assms] mult.commute)
  from k(2) have "real_of_int ?k \<le> of_int (2 ^ 53)"
    by (simp only: of_int_le_iff)
  then have "of_int ?k * ulp a \<le> 2 ^ 53 * ulp a"
    using ulp_pos [of a] by (intro mult_right_mono) simp_all
  moreover have "(2::real) powi (exponent a + 1) = 2 ^ 53 * ulp a"
    using ulp_exponent [of a] by (simp add: power_int_add)
  ultimately show "fl a \<le> 2 powi (exponent a + 1)"
    by (simp add: fl_pos [OF assms])
qed

lemma fl_nonneg: "0 \<le> x \<Longrightarrow> 0 \<le> fl x"
proof (cases "x = 0")
  case True
  then show ?thesis by simp
next
  case False
  assume "0 \<le> x"
  with False have x: "0 < x" by simp
  have "(0::real) < 2 powi exponent x"
    by (simp add: zero_less_power_int)
  with fl_binade(1) [OF x] show ?thesis by linarith
qed

lemma fl_nonpos: "x \<le> 0 \<Longrightarrow> fl x \<le> 0"
  using fl_nonneg [of "- x"] by (simp add: fl_minus)

lemma fl_mono_pos:
  assumes "0 < x" and "x \<le> y"
  shows "fl x \<le> fl y"
proof -
  from assms have y: "0 < y" by simp
  from exponent_bounds(1) [OF assms(1)] assms(2) exponent_bounds(2) [OF y]
  have "(2::real) powi exponent x < 2 powi (exponent y + 1)" by simp
  then have le: "exponent x \<le> exponent y"
    using two_powi_less_imp by fastforce
  show ?thesis
  proof (cases "exponent x = exponent y")
    case True
    then have u: "ulp x = ulp y" by (simp add: ulp_def)
    from assms(2) have "x / ulp y \<le> y / ulp y"
      using ulp_pos [of y] by (simp add: divide_right_mono)
    then have "round_half_even (x / ulp y) \<le> round_half_even (y / ulp y)"
      by (rule round_half_even_mono)
    then have "real_of_int (round_half_even (x / ulp y)) \<le> of_int (round_half_even (y / ulp y))"
      by (simp only: of_int_le_iff)
    then have "of_int (round_half_even (x / ulp y)) * ulp y
        \<le> of_int (round_half_even (y / ulp y)) * ulp y"
      using ulp_pos [of y] by (intro mult_right_mono) simp_all
    then show ?thesis
      by (simp add: fl_pos [OF assms(1)] fl_pos [OF y] u)
  next
    case False
    with le have "exponent x + 1 \<le> exponent y" by simp
    then have "(2::real) powi (exponent x + 1) \<le> 2 powi exponent y"
      by (rule power_int_increasing) simp
    with fl_binade(2) [OF assms(1)] fl_binade(1) [OF y] show ?thesis
      by simp
  qed
qed

lemma fl_mono: "x \<le> y \<Longrightarrow> fl x \<le> fl y"
proof -
  assume xy: "x \<le> y"
  consider "0 < x" | "x \<le> 0" "0 \<le> y" | "y < 0" using xy by linarith
  then show ?thesis
  proof cases
    case 1
    then show ?thesis using xy by (rule fl_mono_pos)
  next
    case 2
    from fl_nonpos [OF 2(1)] fl_nonneg [OF 2(2)] show ?thesis by simp
  next
    case 3
    then have "0 < - y" "- y \<le> - x" using xy by simp_all
    from fl_mono_pos [OF this] show ?thesis
      by (simp add: fl_minus)
  qed
qed

text \<open>Evaluation at a positive number whose binade is known.\<close>

lemma fl_eval:
  assumes "2 ^ 52 \<le> x * 2 ^ n" and "x * 2 ^ n < 2 ^ 53"
  shows "fl x = of_int (round_half_even (x * 2 ^ n)) / 2 ^ n"
proof -
  have "(0::real) < 2 ^ 52" by simp
  with assms(1) have "0 < x * 2 ^ n" by linarith
  then have x: "0 < x"
    by (rule zero_less_mult_pos2) simp
  have p: "(2::real) powi (52 - int n) = 2 ^ 52 / 2 ^ n"
    by (simp add: power_int_diff)
  have "exponent x = 52 - int n"
  proof (rule exponent_unique [OF x])
    show "2 powi (52 - int n) \<le> x"
      using assms(1) by (simp add: p field_simps)
    have "(2::real) powi (52 - int n + 1) = 2 powi (53 - int n)"
      by simp
    also have "\<dots> = 2 ^ 53 / 2 ^ n"
      by (simp add: power_int_diff)
    finally have q: "(2::real) powi (52 - int n + 1) = 2 ^ 53 / 2 ^ n" .
    from assms(2) have "x < 2 ^ 53 / 2 ^ n"
      by (simp add: field_simps)
    then show "x < 2 powi (52 - int n + 1)"
      by (simp only: q)
  qed
  then have "ulp x = 1 / 2 ^ n"
    by (simp add: ulp_def power_int_minus_divide)
  then show ?thesis
    by (simp add: fl_pos [OF x])
qed

lemma fl_of_int:
  assumes "\<bar>k\<bar> \<le> 2 ^ 53"
  shows "fl (of_int k) = of_int k"
proof -
  have pos: "fl (of_int k) = of_int k" if k: "0 < k" "k \<le> 2 ^ 53" for k :: int
  proof -
    let ?a = "real_of_int k"
    from k(2) have "?a \<le> real_of_int (2 ^ 53)"
      by (simp only: of_int_le_iff)
    with k(1) have a: "0 < ?a" "1 \<le> ?a" "?a \<le> 2 ^ 53"
      by simp_all
    let ?e = "exponent ?a"
    from exponent_bounds(1) [OF a(1)] a(3) have "(2::real) powi ?e \<le> 2 powi 53"
      by simp
    also have "\<dots> < 2 powi 54" by simp
    finally have e53: "?e \<le> 53"
      using two_powi_less_imp by fastforce
    show ?thesis
    proof (cases "?e \<le> 52")
      case True
      define n where "n = nat (52 - ?e)"
      have "ulp ?a = 2 powi (- int n)"
        using True by (simp add: ulp_def n_def)
      then have u: "ulp ?a = 1 / 2 ^ n"
        by (simp add: power_int_minus_divide)
      then have "?a / ulp ?a = of_int (k * 2 ^ n)"
        by simp
      then have "round_half_even (?a / ulp ?a) = k * 2 ^ n"
        by (simp only: round_half_even_of_int)
      then show ?thesis
        by (simp add: fl_pos [OF a(1)] u)
    next
      case False
      with e53 have e: "?e = 53" by simp
      from exponent_bounds(1) [OF a(1)] e have "2 ^ 53 \<le> ?a"
        by simp
      with a(3) have eq: "?a = of_int (2 ^ 53)" by simp
      have u: "ulp ?a = 2"
        by (simp add: ulp_def e)
      have "?a / ulp ?a = ?a / 2"
        by (simp only: u)
      also have "\<dots> = of_int (2 ^ 52)"
        by (simp only: eq) simp
      finally have "round_half_even (?a / ulp ?a) = 2 ^ 52"
        by (simp only: round_half_even_of_int)
      then have "fl ?a = of_int (2 ^ 52) * 2"
        by (simp only: fl_pos [OF a(1)] u)
      also have "\<dots> = of_int (2 ^ 53)"
        by simp
      finally show ?thesis
        by (simp only: eq)
    qed
  qed
  consider "k = 0" | "0 < k" | "k < 0" by linarith
  then show ?thesis
  proof cases
    case 1
    then show ?thesis by simp
  next
    case 2
    with assms show ?thesis by (intro pos) simp_all
  next
    case 3
    with assms have "fl (of_int (- k)) = of_int (- k)"
      by (intro pos) simp_all
    then show ?thesis
      by (simp add: fl_minus)
  qed
qed

text \<open>
  The midpoint in doubles. Between 0 and 1 it is within \<open>3 / 2 ^ 53\<close> of the exact
  midpoint, so it lies strictly between the bounds as long as they are a little more
  than that apart; after \<open>n\<close> halvings of a gap of \<open>(2 ^ n - 1) / 2 ^ 50\<close> they still are.
\<close>

lemma midpoint_error:
  assumes "0 \<le> lo" and "lo \<le> hi" and "hi \<le> 1"
  shows "\<bar>fl (fl (lo + hi) / 2) - (lo + hi) / 2\<bar> \<le> 3 / 2 ^ 53"
proof -
  define e :: real where "e = 1 / 2 ^ 53"
  have e: "0 < e" "e \<le> 1"
    by (simp_all add: e_def)
  let ?z = "lo + hi"
  let ?t = "fl ?z"
  from assms have z: "0 \<le> ?z" "?z \<le> 2" by simp_all
  have "\<bar>?t - ?z\<bar> \<le> \<bar>?z\<bar> * e"
    using fl_error [of ?z] by (simp add: e_def)
  also have "\<bar>?z\<bar> * e \<le> 2 * e"
    using z e(1) by (intro mult_right_mono) simp_all
  finally have t: "\<bar>?t - ?z\<bar> \<le> 2 * e" .
  with z e have t2: "\<bar>?t / 2\<bar> \<le> 2"
    by linarith
  have "\<bar>fl (?t / 2) - ?t / 2\<bar> \<le> \<bar>?t / 2\<bar> * e"
    using fl_error [of "?t / 2"] by (simp add: e_def)
  also have "\<bar>?t / 2\<bar> * e \<le> 2 * e"
    using t2 e(1) by (intro mult_right_mono) simp_all
  finally have "\<bar>fl (?t / 2) - ?t / 2\<bar> \<le> 2 * e" .
  with t e(1) have "\<bar>fl (?t / 2) - (lo / 2 + hi / 2)\<bar> \<le> 3 * e"
    by linarith
  then have "\<bar>fl (?t / 2) - ?z / 2\<bar> \<le> 3 * e"
    by (simp only: add_divide_distrib)
  then show ?thesis
    by (simp add: e_def)
qed

lemma midpoint_between:
  assumes "0 \<le> lo" and "hi \<le> 1" and "(2 ^ Suc n - 1) / 2 ^ 50 \<le> hi - lo"
  shows "lo < fl (fl (lo + hi) / 2)" and "fl (fl (lo + hi) / 2) < hi"
    and "(2 ^ n - 1) / 2 ^ 50 \<le> fl (fl (lo + hi) / 2) - lo"
    and "(2 ^ n - 1) / 2 ^ 50 \<le> hi - fl (fl (lo + hi) / 2)"
proof -
  let ?m = "fl (fl (lo + hi) / 2)"
  define e :: real where "e = 1 / 2 ^ 53"
  define g :: real where "g = (2 ^ n - 1) / 2 ^ 50"
  have e: "0 < e"
    by (simp add: e_def)
  have g: "0 \<le> g"
    by (simp add: g_def)
  have "(2 ^ Suc n - 1) / 2 ^ 50 = 2 * g + 8 * e"
    by (simp add: g_def e_def diff_divide_distrib)
  with assms(3) have gap: "2 * g + 8 * e \<le> hi - lo"
    by simp
  with e g have "lo \<le> hi" by linarith
  from midpoint_error [OF assms(1) this assms(2)]
  have "\<bar>?m - (lo + hi) / 2\<bar> \<le> 3 * e"
    by (simp add: e_def)
  then have err: "\<bar>?m - (lo / 2 + hi / 2)\<bar> \<le> 3 * e"
    by (simp only: add_divide_distrib)
  from gap err e g show "lo < ?m"
    by linarith
  from gap err e g show "?m < hi"
    by linarith
  from gap err e have "g \<le> ?m - lo"
    by linarith
  then show "(2 ^ n - 1) / 2 ^ 50 \<le> ?m - lo"
    by (simp only: g_def)
  from gap err e have "g \<le> hi - ?m"
    by linarith
  then show "(2 ^ n - 1) / 2 ^ 50 \<le> hi - ?m"
    by (simp only: g_def)
qed

section \<open>Properties of the inner search\<close>

lemma quality_samples_between:
  assumes "0 \<le> lo" and "hi \<le> 1" and "(2 ^ n - 1) / 2 ^ 50 \<le> hi - lo"
    and "q \<in> set (quality_samples mk c n lo hi)"
  shows "lo < q \<and> q < hi"
  using assms
proof (induction n arbitrary: lo hi)
  case 0
  then show ?case by simp
next
  case (Suc n)
  let ?m = "fl (fl (lo + hi) / 2)"
  note m = midpoint_between [OF Suc.prems(1,2,3)]
  from Suc.prems(4) consider "q = ?m"
    | "q \<in> set (quality_samples mk c n ?m hi)"
    | "q \<in> set (quality_samples mk c n lo ?m)"
    by (auto simp: Let_def split: if_splits)
  then show ?case
  proof cases
    case 1
    with m(1,2) show ?thesis by simp
  next
    case 2
    from Suc.prems(1) m(1) have "0 \<le> ?m" by simp
    from Suc.IH [OF this Suc.prems(2) m(4) 2] m(1) show ?thesis by simp
  next
    case 3
    from Suc.prems(2) m(2) have "?m \<le> 1" by simp
    from Suc.IH [OF Suc.prems(1) this m(3) 3] m(2) show ?thesis by simp
  qed
qed

text \<open>The loop returns the last sampled quality that fits, and the blob encoded there.\<close>

lemma quality_loop_last:
  "quality_loop mk c n lo hi best =
     (let fs = filter (fits_budget mk c) (quality_samples mk c n lo hi)
      in if fs = [] then best
         else Some \<lparr>enc_blob = mk c (last fs), enc_q = last fs\<rparr>)"
proof (induction n arbitrary: lo hi best)
  case 0
  then show ?case by simp
next
  case (Suc n)
  let ?m = "fl (fl (lo + hi) / 2)"
  show ?case
  proof (cases "blob_size (mk c ?m) \<le> MAX_BYTES")
    case True
    then have fit: "fits_budget mk c ?m"
      by (simp add: fits_budget_def)
    from True have "quality_loop mk c (Suc n) lo hi best =
        quality_loop mk c n ?m hi (Some \<lparr>enc_blob = mk c ?m, enc_q = ?m\<rparr>)"
      by (simp add: Let_def)
    moreover from True have "quality_samples mk c (Suc n) lo hi =
        ?m # quality_samples mk c n ?m hi"
      by (simp add: Let_def)
    ultimately show ?thesis
      using fit Suc.IH [of ?m hi "Some \<lparr>enc_blob = mk c ?m, enc_q = ?m\<rparr>"]
      by (simp add: Let_def)
  next
    case False
    then have nofit: "\<not> fits_budget mk c ?m"
      by (simp add: fits_budget_def)
    from False have "quality_loop mk c (Suc n) lo hi best = quality_loop mk c n lo ?m best"
      by (simp add: Let_def)
    moreover from False have "quality_samples mk c (Suc n) lo hi =
        ?m # quality_samples mk c n lo ?m"
      by (simp add: Let_def)
    ultimately show ?thesis
      using nofit Suc.IH [of lo ?m best]
      by (simp add: Let_def)
  qed
qed

lemma nat8: "(8::nat) = Suc (Suc (Suc (Suc (Suc (Suc (Suc (Suc 0)))))))"
  by simp

lemma quality_samples_length: "length (quality_samples mk c n lo hi) = n"
  by (induction n arbitrary: lo hi) (simp_all add: Let_def)

lemma encodeJpegUnder2MB_cases:
  "encodeJpegUnder2MB mk c =
     (let fs = filter (fits_budget mk c) (sampled_qualities mk c)
      in if fs = [] then Some \<lparr>enc_blob = mk c 0.5, enc_q = 0.5\<rparr>
         else Some \<lparr>enc_blob = mk c (last fs), enc_q = last fs\<rparr>)"
  by (simp add: encodeJpegUnder2MB_def sampled_qualities_def quality_loop_last [of mk c 8] Let_def)

text \<open>
  The doubles that the quality search goes through with the example encoder: the
  upper bound that \<^verbatim>\<open>0.95\<close> denotes, and the sums and midpoints.
\<close>

lemma fl_quality_1: "fl (19 / 20) = 4278419646001971 / 4503599627370496"
  by (subst fl_eval [where n = 53]) (simp_all add: round_half_even_def Let_def)

lemma fl_quality_2: "fl (6530219459687219 / 4503599627370496) = 6530219459687219 / 4503599627370496"
  by (subst fl_eval [where n = 52]) (simp_all add: round_half_even_def Let_def)

lemma fl_quality_3: "fl (6530219459687219 / 9007199254740992) = 6530219459687219 / 9007199254740992"
  by (subst fl_eval [where n = 53]) (simp_all add: round_half_even_def Let_def)

lemma fl_quality_4: "fl (11033819087057715 / 9007199254740992) = 2758454771764429 / 2251799813685248"
  by (subst fl_eval [where n = 52]) (simp_all add: round_half_even_def Let_def)

lemma fl_quality_5: "fl (2758454771764429 / 4503599627370496) = 2758454771764429 / 4503599627370496"
  by (subst fl_eval [where n = 53]) (simp_all add: round_half_even_def Let_def)

lemma fl_quality_6: "fl (12047129003216077 / 9007199254740992) = 3011782250804019 / 2251799813685248"
  by (subst fl_eval [where n = 52]) (simp_all add: round_half_even_def Let_def)

lemma fl_quality_7: "fl (3011782250804019 / 4503599627370496) = 3011782250804019 / 4503599627370496"
  by (subst fl_eval [where n = 53]) (simp_all add: round_half_even_def Let_def)

lemma fl_quality_8: "fl (12553783961295257 / 9007199254740992) = 1569222995161907 / 1125899906842624"
  by (subst fl_eval [where n = 52]) (simp_all add: round_half_even_def Let_def)

lemma fl_quality_9: "fl (1569222995161907 / 2251799813685248) = 1569222995161907 / 2251799813685248"
  by (subst fl_eval [where n = 53]) (simp_all add: round_half_even_def Let_def)

lemma fl_quality_10: "fl (12807111440334847 / 9007199254740992) = 91 / 64"
  by (subst fl_eval [where n = 52]) (simp_all add: round_half_even_def Let_def)

lemma fl_quality_11: "fl (91 / 128) = 91 / 128"
  by (subst fl_eval [where n = 53]) (simp_all add: round_half_even_def Let_def)

lemma fl_quality_12: "fl (3170111925203763 / 2251799813685248) = 3170111925203763 / 2251799813685248"
  by (subst fl_eval [where n = 52]) (simp_all add: round_half_even_def Let_def)

lemma fl_quality_13: "fl (3170111925203763 / 4503599627370496) = 3170111925203763 / 4503599627370496"
  by (subst fl_eval [where n = 53]) (simp_all add: round_half_even_def Let_def)

lemma fl_quality_14: "fl (6308557915527577 / 4503599627370496) = 6308557915527577 / 4503599627370496"
  by (subst fl_eval [where n = 52]) (simp_all add: round_half_even_def Let_def)

lemma fl_quality_15: "fl (6308557915527577 / 9007199254740992) = 6308557915527577 / 9007199254740992"
  by (subst fl_eval [where n = 53]) (simp_all add: round_half_even_def Let_def)

lemma fl_quality_16: "fl (12585449896175205 / 9007199254740992) = 3146362474043801 / 2251799813685248"
  by (subst fl_eval [where n = 52]) (simp_all add: round_half_even_def Let_def)

lemma fl_quality_17: "fl (3146362474043801 / 4503599627370496) = 3146362474043801 / 4503599627370496"
  by (subst fl_eval [where n = 53]) (simp_all add: round_half_even_def Let_def)

lemmas fl_quality_values =
  fl_quality_1 fl_quality_2 fl_quality_3 fl_quality_4 fl_quality_5 fl_quality_6 fl_quality_7 fl_quality_8 fl_quality_9 fl_quality_10 fl_quality_11 fl_quality_12 fl_quality_13 fl_quality_14 fl_quality_15 fl_quality_16 fl_quality_17

lemma sampled_qualities_between:
  assumes "q \<in> set (sampled_qualities mk c)"
  shows "0.5 < q \<and> q < 0.95"
proof -
  have "0.5 < q \<and> q < fl 0.95"
  proof (rule quality_samples_between)
    show "q \<in> set (quality_samples mk c 8 0.5 (fl 0.95))"
      using assms by (simp add: sampled_qualities_def)
  qed (simp_all add: fl_quality_1)
  then show ?thesis
    by (simp add: fl_quality_1)
qed

lemma ex_sampled_qualities:
  "sampled_qualities ex_encoder ex_canvas =
     [6530219459687219 / 9007199254740992, 2758454771764429 / 4503599627370496,
      3011782250804019 / 4503599627370496, 1569222995161907 / 2251799813685248,
      91 / 128, 3170111925203763 / 4503599627370496,
      6308557915527577 / 9007199254740992, 3146362474043801 / 4503599627370496]"
  unfolding sampled_qualities_def nat8
  by (simp add: ex_encoder_def Let_def MAX_BYTES_def fl_quality_values)

text \<open>
  C1. \<^verbatim>\<open>encodeJpegUnder2MB\<close> always returns a blob-quality pair, never \<^verbatim>\<open>null\<close>, for
  every canvas and every total encoder; and if one of the 8 sampled midpoint qualities
  encodes to at most \<^verbatim>\<open>MAX_BYTES\<close> bytes, the returned blob has at most \<^verbatim>\<open>MAX_BYTES\<close>
  bytes. (The claim's premise that the canvas has positive width and height is not
  needed once the encoder is total.)
\<close>

theorem encodeJpegUnder2MB_within_budget:
  "\<exists>r. encodeJpegUnder2MB mk c = Some r \<and>
       ((\<exists>q \<in> set (sampled_qualities mk c). blob_size (mk c q) \<le> MAX_BYTES)
          \<longrightarrow> blob_size (enc_blob r) \<le> MAX_BYTES)"
proof (cases "filter (fits_budget mk c) (sampled_qualities mk c) = []")
  case True
  then have "\<not> (\<exists>q \<in> set (sampled_qualities mk c). blob_size (mk c q) \<le> MAX_BYTES)"
    by (simp add: filter_empty_conv fits_budget_def)
  with True show ?thesis
    by (simp add: encodeJpegUnder2MB_cases)
next
  case False
  let ?fs = "filter (fits_budget mk c) (sampled_qualities mk c)"
  from False have "last ?fs \<in> set ?fs"
    by (rule last_in_set)
  then have "blob_size (mk c (last ?fs)) \<le> MAX_BYTES"
    by (simp add: fits_budget_def)
  with False show ?thesis
    by (simp add: encodeJpegUnder2MB_cases Let_def)
qed

theorem encodeJpegUnder2MB_within_budget_witness:
  "(\<exists>q \<in> set (sampled_qualities ex_encoder ex_canvas).
      blob_size (ex_encoder ex_canvas q) \<le> MAX_BYTES) \<and>
   (\<exists>r. encodeJpegUnder2MB ex_encoder ex_canvas = Some r \<and>
      blob_size (enc_blob r) \<le> MAX_BYTES)"
proof -
  have h: "\<exists>q \<in> set (sampled_qualities ex_encoder ex_canvas).
      blob_size (ex_encoder ex_canvas q) \<le> MAX_BYTES"
    by (simp add: ex_sampled_qualities ex_encoder_def MAX_BYTES_def)
  with encodeJpegUnder2MB_within_budget [of ex_encoder ex_canvas] show ?thesis
    by blast
qed

text \<open>
  C9. The quality returned by \<^verbatim>\<open>encodeJpegUnder2MB\<close> lies in the half-open interval
  from 0.5 to 0.95; it is exactly 0.5 if and only if none of the 8 sampled midpoints
  fits the budget, which is when the loop leaves \<^verbatim>\<open>best\<close> at \<^verbatim>\<open>null\<close> and the fallback
  runs; and each of the 8 sampled midpoints is strictly between 0.5 and 0.95.
\<close>

theorem encodeJpegUnder2MB_quality_range:
  "\<exists>r. encodeJpegUnder2MB mk c = Some r \<and>
       0.5 \<le> enc_q r \<and> enc_q r < 0.95 \<and>
       (enc_q r = 0.5 \<longleftrightarrow>
          (\<forall>q \<in> set (sampled_qualities mk c). MAX_BYTES < blob_size (mk c q))) \<and>
       (enc_q r = 0.5 \<longleftrightarrow> quality_loop mk c 8 0.5 (fl 0.95) None = None) \<and>
       length (sampled_qualities mk c) = 8 \<and>
       (\<forall>q \<in> set (sampled_qualities mk c). 0.5 < q \<and> q < 0.95)"
proof -
  let ?fs = "filter (fits_budget mk c) (sampled_qualities mk c)"
  have len: "length (sampled_qualities mk c) = 8"
    by (simp add: sampled_qualities_def quality_samples_length)
  have rng: "\<forall>q \<in> set (sampled_qualities mk c). 0.5 < q \<and> q < 0.95"
    using sampled_qualities_between by blast
  have loop: "quality_loop mk c 8 0.5 (fl 0.95) None = None \<longleftrightarrow> ?fs = []"
    by (simp add: quality_loop_last [of mk c 8] sampled_qualities_def Let_def)
  have none: "?fs = [] \<longleftrightarrow>
      (\<forall>q \<in> set (sampled_qualities mk c). MAX_BYTES < blob_size (mk c q))"
    by (simp add: filter_empty_conv fits_budget_def not_le)
  show ?thesis
  proof (cases "?fs = []")
    case True
    then have "encodeJpegUnder2MB mk c = Some \<lparr>enc_blob = mk c 0.5, enc_q = 0.5\<rparr>"
      by (simp add: encodeJpegUnder2MB_cases)
    with True len rng loop none show ?thesis
      by simp
  next
    case False
    then have e: "encodeJpegUnder2MB mk c = Some \<lparr>enc_blob = mk c (last ?fs), enc_q = last ?fs\<rparr>"
      by (simp add: encodeJpegUnder2MB_cases Let_def)
    from False have "last ?fs \<in> set ?fs"
      by (rule last_in_set)
    then have "last ?fs \<in> set (sampled_qualities mk c)"
      by simp
    then have "0.5 < last ?fs \<and> last ?fs < 0.95"
      by (rule sampled_qualities_between)
    with e False len rng loop none show ?thesis
      by simp
  qed
qed

theorem encodeJpegUnder2MB_quality_range_witness:
  "(\<exists>q \<in> set (sampled_qualities ex_encoder ex_canvas).
      \<not> MAX_BYTES < blob_size (ex_encoder ex_canvas q)) \<and>
   (\<exists>r. encodeJpegUnder2MB ex_encoder ex_canvas = Some r \<and>
      0.5 < enc_q r \<and> enc_q r < 0.95)"
proof -
  have h: "\<exists>q \<in> set (sampled_qualities ex_encoder ex_canvas).
      \<not> MAX_BYTES < blob_size (ex_encoder ex_canvas q)"
    by (simp add: ex_sampled_qualities ex_encoder_def MAX_BYTES_def)
  from encodeJpegUnder2MB_quality_range [of ex_encoder ex_canvas]
  obtain r where r: "encodeJpegUnder2MB ex_encoder ex_canvas = Some r"
      "0.5 \<le> enc_q r" "enc_q r < 0.95"
      "enc_q r = 0.5 \<longleftrightarrow>
         (\<forall>q \<in> set (sampled_qualities ex_encoder ex_canvas).
            MAX_BYTES < blob_size (ex_encoder ex_canvas q))"
    by blast
  from h r(4) have "enc_q r \<noteq> 0.5" by blast
  with r(2) have "0.5 < enc_q r" by simp
  with h r(1,3) show ?thesis by blast
qed

section \<open>Properties of the outer search\<close>

lemma encodeJpegUnder2MB_Some: "\<exists>enc. encodeJpegUnder2MB mk c = Some enc"
  by (simp add: encodeJpegUnder2MB_cases Let_def)

lemma scale_samples_between:
  assumes "0 \<le> lo" and "hi \<le> 1" and "(2 ^ n - 1) / 2 ^ 50 \<le> hi - lo"
    and "s \<in> set (scale_samples mk img cropPx maxW maxH n lo hi)"
  shows "lo < s \<and> s < hi"
  using assms
proof (induction n arbitrary: lo hi)
  case 0
  then show ?case by simp
next
  case (Suc n)
  let ?m = "fl (fl (lo + hi) / 2)"
  note m = midpoint_between [OF Suc.prems(1,2,3)]
  from Suc.prems(4) consider "s = ?m"
    | "s \<in> set (scale_samples mk img cropPx maxW maxH n ?m hi)"
    | "s \<in> set (scale_samples mk img cropPx maxW maxH n lo ?m)"
    by (auto simp: Let_def split: if_splits)
  then show ?case
  proof cases
    case 1
    with m(1,2) show ?thesis by simp
  next
    case 2
    from Suc.prems(1) m(1) have "0 \<le> ?m" by simp
    from Suc.IH [OF this Suc.prems(2) m(4) 2] m(1) show ?thesis by simp
  next
    case 3
    from Suc.prems(2) m(2) have "?m \<le> 1" by simp
    from Suc.IH [OF Suc.prems(1) this m(3) 3] m(2) show ?thesis by simp
  qed
qed

lemma scale_samples_length: "length (scale_samples mk img cropPx maxW maxH n lo hi) = n"
  by (induction n arbitrary: lo hi) (simp_all add: Let_def)

lemma scale_loop_last:
  "scale_loop mk img cropPx maxW maxH n lo hi best =
     Inr (let fs = filter (fits_scale mk img cropPx maxW maxH)
                     (scale_samples mk img cropPx maxW maxH n lo hi)
          in if fs = [] then best else best_at mk img cropPx maxW maxH (last fs))"
proof (induction n arbitrary: lo hi best)
  case 0
  then show ?case by simp
next
  case (Suc n)
  let ?m = "fl (fl (lo + hi) / 2)"
  let ?c = "canvas_at img cropPx maxW maxH ?m"
  obtain enc where enc: "encodeJpegUnder2MB mk ?c = Some enc"
    using encodeJpegUnder2MB_Some by blast
  let ?r = "\<lparr>res_blob = enc_blob enc, res_q = enc_q enc,
             res_w = max 1 (Math_floor (fl (of_int maxW * ?m))),
             res_h = max 1 (Math_floor (fl (of_int maxH * ?m)))\<rparr>"
  have at: "best_at mk img cropPx maxW maxH ?m = Some ?r"
    using enc by (simp add: best_at_def)
  show ?case
  proof (cases "blob_size (enc_blob enc) \<le> MAX_BYTES")
    case True
    with enc have fit: "fits_scale mk img cropPx maxW maxH ?m"
      by (simp add: fits_scale_def)
    from True enc have "scale_loop mk img cropPx maxW maxH (Suc n) lo hi best =
        scale_loop mk img cropPx maxW maxH n ?m hi (Some ?r)"
      by (simp add: Let_def canvas_at_def)
    moreover from fit have "scale_samples mk img cropPx maxW maxH (Suc n) lo hi =
        ?m # scale_samples mk img cropPx maxW maxH n ?m hi"
      by (simp add: Let_def)
    ultimately show ?thesis
      using fit at Suc.IH [of ?m hi "Some ?r"]
      by (simp add: Let_def)
  next
    case False
    with enc have nofit: "\<not> fits_scale mk img cropPx maxW maxH ?m"
      by (simp add: fits_scale_def)
    from False enc have "scale_loop mk img cropPx maxW maxH (Suc n) lo hi best =
        scale_loop mk img cropPx maxW maxH n lo ?m best"
      by (simp add: Let_def canvas_at_def)
    moreover from nofit have "scale_samples mk img cropPx maxW maxH (Suc n) lo hi =
        ?m # scale_samples mk img cropPx maxW maxH n lo ?m"
      by (simp add: Let_def)
    ultimately show ?thesis
      using nofit Suc.IH [of lo ?m best]
      by (simp add: Let_def)
  qed
qed

lemma Max_insert_below:
  fixes m :: real
  assumes "finite A" and "A \<noteq> {}" and "m < Max A"
  shows "Max (insert m A) = Max A"
  using assms by (simp add: Max_insert max_def)

lemma fitting_last_is_Max:
  assumes "0 \<le> lo" and "hi \<le> 1" and "(2 ^ n - 1) / 2 ^ 50 \<le> hi - lo"
    and "filter (fits_scale mk img cropPx maxW maxH)
           (scale_samples mk img cropPx maxW maxH n lo hi) \<noteq> []"
  shows "last (filter (fits_scale mk img cropPx maxW maxH)
           (scale_samples mk img cropPx maxW maxH n lo hi)) =
         Max (set (filter (fits_scale mk img cropPx maxW maxH)
           (scale_samples mk img cropPx maxW maxH n lo hi)))"
  using assms
proof (induction n arbitrary: lo hi)
  case 0
  then show ?case by simp
next
  case (Suc n)
  let ?P = "fits_scale mk img cropPx maxW maxH"
  let ?m = "fl (fl (lo + hi) / 2)"
  note m = midpoint_between [OF Suc.prems(1,2,3)]
  from Suc.prems(1) m(1) have m0: "0 \<le> ?m" by simp
  from Suc.prems(2) m(2) have m1: "?m \<le> 1" by simp
  show ?case
  proof (cases "?P ?m")
    case True
    let ?rest = "filter ?P (scale_samples mk img cropPx maxW maxH n ?m hi)"
    from True have eq: "filter ?P (scale_samples mk img cropPx maxW maxH (Suc n) lo hi) = ?m # ?rest"
      by (simp add: Let_def)
    show ?thesis
    proof (cases "?rest = []")
      case True
      with eq show ?thesis by simp
    next
      case False
      from Suc.IH [OF m0 Suc.prems(2) m(4) False] have l: "last ?rest = Max (set ?rest)" .
      from False have ne: "set ?rest \<noteq> {}"
        by (simp only: set_empty not_False_eq_True)
      have mem: "Max (set ?rest) \<in> set ?rest"
        by (rule Max_in [OF finite_set ne])
      have "set ?rest \<subseteq> set (scale_samples mk img cropPx maxW maxH n ?m hi)"
        by (rule filter_is_subset)
      with mem have "Max (set ?rest) \<in> set (scale_samples mk img cropPx maxW maxH n ?m hi)"
        by blast
      from scale_samples_between [OF m0 Suc.prems(2) m(4) this] have "?m < Max (set ?rest)"
        by simp
      then have "Max (insert ?m (set ?rest)) = Max (set ?rest)"
        by (rule Max_insert_below [OF finite_set ne])
      then have "Max (set (?m # ?rest)) = Max (set ?rest)"
        by (simp only: list.set)
      moreover from False have "last (?m # ?rest) = last ?rest"
        by (rule last_ConsR)
      ultimately show ?thesis
        using l by (simp only: eq)
    qed
  next
    case False
    then have eq: "filter ?P (scale_samples mk img cropPx maxW maxH (Suc n) lo hi) =
        filter ?P (scale_samples mk img cropPx maxW maxH n lo ?m)"
      by (simp add: Let_def)
    with Suc.prems(4) have ne: "filter ?P (scale_samples mk img cropPx maxW maxH n lo ?m) \<noteq> []"
      by simp
    from Suc.IH [OF Suc.prems(1) m1 m(3) ne] eq show ?thesis by simp
  qed
qed

lemma findBestSizeAndEncode_cases:
  "findBestSizeAndEncode mk img cropPx =
     Inr (if fitting_scales mk img cropPx = [] then fallback_result mk img cropPx
          else best_at mk img cropPx (Math_floor (area_width cropPx))
                 (Math_floor (area_height cropPx)) (last (fitting_scales mk img cropPx)))"
proof -
  let ?W = "Math_floor (area_width cropPx)"
  let ?H = "Math_floor (area_height cropPx)"
  let ?fs = "fitting_scales mk img cropPx"
  have loop: "scale_loop mk img cropPx ?W ?H 8 (fl 0.2) 1.0 None =
      Inr (if ?fs = [] then None else best_at mk img cropPx ?W ?H (last ?fs))"
    by (simp add: scale_loop_last [of mk img cropPx ?W ?H 8] fitting_scales_def
        sampled_scales_def Let_def)
  show ?thesis
  proof (cases "?fs = []")
    case True
    obtain enc where "encodeJpegUnder2MB mk (draw_canvas img cropPx (min 800 ?W)
        (Math_round (of_int (min 800 ?W) * (ASPECT_H / ASPECT_W)))) = Some enc"
      using encodeJpegUnder2MB_Some by blast
    with True loop show ?thesis
      by (simp add: findBestSizeAndEncode_def fallback_result_def Let_def)
  next
    case False
    obtain enc where "encodeJpegUnder2MB mk (canvas_at img cropPx ?W ?H (last ?fs)) = Some enc"
      using encodeJpegUnder2MB_Some by blast
    then obtain r where "best_at mk img cropPx ?W ?H (last ?fs) = Some r"
      by (simp add: best_at_def)
    with False loop show ?thesis
      by (simp add: findBestSizeAndEncode_def Let_def)
  qed
qed

lemma over_encoder_fitting: "fitting_scales over_encoder img cropPx = []"
  by (simp add: fitting_scales_def filter_empty_conv fits_scale_def encodeJpegUnder2MB_cases
      fits_budget_def over_encoder_def MAX_BYTES_def)


text \<open>
  For an encoder whose output does not shrink when the quality grows, a scale fits
  exactly when the encoding at quality 0.5 does.
\<close>

lemma fits_scale_monotone:
  assumes mono: "\<And>c q q'. q \<le> q' \<Longrightarrow> blob_size (mk c q) \<le> blob_size (mk c q')"
  shows "fits_scale mk img cropPx maxW maxH s =
         (blob_size (mk (canvas_at img cropPx maxW maxH s) 0.5) \<le> MAX_BYTES)"
proof -
  let ?c = "canvas_at img cropPx maxW maxH s"
  let ?fs = "filter (fits_budget mk ?c) (sampled_qualities mk ?c)"
  show ?thesis
  proof (cases "?fs = []")
    case True
    then show ?thesis
      by (simp add: fits_scale_def encodeJpegUnder2MB_cases)
  next
    case False
    then have "last ?fs \<in> set ?fs"
      by (rule last_in_set)
    then have fit: "blob_size (mk ?c (last ?fs)) \<le> MAX_BYTES"
      and mem: "last ?fs \<in> set (sampled_qualities mk ?c)"
      by (simp_all add: fits_budget_def)
    from sampled_qualities_between [OF mem] have "0.5 \<le> last ?fs"
      by simp
    from mono [OF this, of ?c] fit have "blob_size (mk ?c 0.5) \<le> MAX_BYTES"
      by simp
    with False fit show ?thesis
      by (simp add: fits_scale_def encodeJpegUnder2MB_cases Let_def)
  qed
qed

text \<open>The first lower bound of the search, the double that \<^verbatim>\<open>0.2\<close> denotes.\<close>

lemma fl_one_fifth: "fl (1 / 5) = 3602879701896397 / 18014398509481984"
  by (subst fl_eval [where n = 55]) (simp_all add: round_half_even_def Let_def)

lemma sampled_scales_between:
  assumes "s \<in> set (sampled_scales mk img cropPx)"
  shows "0.2 < s \<and> s < 1"
proof -
  have "fl 0.2 < s \<and> s < 1"
  proof (rule scale_samples_between)
    show "s \<in> set (scale_samples mk img cropPx (Math_floor (area_width cropPx))
        (Math_floor (area_height cropPx)) 8 (fl 0.2) 1)"
      using assms by (simp add: sampled_scales_def)
  qed (simp_all add: fl_one_fifth)
  then show ?thesis
    by (simp add: fl_one_fifth)
qed

lemma fitting_scales_between:
  "s \<in> set (fitting_scales mk img cropPx) \<Longrightarrow> 0.2 < s \<and> s < 1"
  using sampled_scales_between [of s mk img cropPx] by (simp add: fitting_scales_def)

lemma fitting_scales_fit:
  "s \<in> set (fitting_scales mk img cropPx) \<Longrightarrow>
     fits_scale mk img cropPx (Math_floor (area_width cropPx)) (Math_floor (area_height cropPx)) s"
  by (simp add: fitting_scales_def)

lemma fitting_scales_last_Max:
  "fitting_scales mk img cropPx \<noteq> [] \<Longrightarrow>
     last (fitting_scales mk img cropPx) = Max (set (fitting_scales mk img cropPx))"
  unfolding fitting_scales_def sampled_scales_def
  by (rule fitting_last_is_Max) (simp_all add: fl_one_fifth)

text \<open>The pixel size of an iteration does not shrink when the scale grows.\<close>

lemma scaled_size_mono:
  fixes m :: int and s t :: real
  assumes "0 < s" and "s \<le> t"
  shows "max 1 (Math_floor (fl (of_int m * s))) \<le> max 1 (Math_floor (fl (of_int m * t)))"
proof (cases "0 \<le> m")
  case True
  then have "of_int m * s \<le> of_int m * t"
    using assms(2) by (simp add: mult_left_mono)
  then have "fl (of_int m * s) \<le> fl (of_int m * t)"
    by (rule fl_mono)
  then have "Math_floor (fl (of_int m * s)) \<le> Math_floor (fl (of_int m * t))"
    by (simp add: Math_floor_def floor_mono)
  then show ?thesis by simp
next
  case False
  then have "of_int m * s \<le> 0"
    using assms(1) by (simp add: mult_le_0_iff)
  then have "fl (of_int m * s) \<le> 0"
    by (rule fl_nonpos)
  then have "Math_floor (fl (of_int m * s)) \<le> 0"
    by (simp add: Math_floor_def floor_le_iff)
  then show ?thesis by simp
qed

text \<open>
  Below scale 1 an iteration never exceeds a crop of at least one pixel (and of at
  most \<open>2 ^ 53\<close> pixels, so that its size is a double).
\<close>

lemma scaled_size_le:
  fixes x s :: real
  assumes "1 \<le> x" and "x \<le> 2 ^ 53" and "0 < s" and "s < 1"
  shows "real_of_int (max 1 (Math_floor (fl (of_int (Math_floor x) * s)))) \<le> x"
proof -
  have fx: "1 \<le> \<lfloor>x\<rfloor>" using assms(1) by (simp add: le_floor_iff)
  have "\<lfloor>x\<rfloor> \<le> 2 ^ 53"
    using assms(2) by (simp add: floor_le_iff)
  with fx have "\<bar>\<lfloor>x\<rfloor>\<bar> \<le> 2 ^ 53" by simp
  then have exact: "fl (of_int \<lfloor>x\<rfloor>) = of_int \<lfloor>x\<rfloor>"
    by (rule fl_of_int)
  from fx have "of_int \<lfloor>x\<rfloor> * s \<le> of_int \<lfloor>x\<rfloor>"
    using assms(3,4) by (simp add: mult_left_le)
  then have "fl (of_int \<lfloor>x\<rfloor> * s) \<le> fl (of_int \<lfloor>x\<rfloor>)"
    by (rule fl_mono)
  with exact have "fl (of_int \<lfloor>x\<rfloor> * s) \<le> of_int \<lfloor>x\<rfloor>"
    by simp
  then have "\<lfloor>fl (of_int \<lfloor>x\<rfloor> * s)\<rfloor> \<le> \<lfloor>x\<rfloor>"
    by (simp add: floor_le_iff)
  with fx have "max 1 \<lfloor>fl (of_int \<lfloor>x\<rfloor> * s)\<rfloor> \<le> \<lfloor>x\<rfloor>"
    by simp
  then have "real_of_int (max 1 \<lfloor>fl (of_int \<lfloor>x\<rfloor> * s)\<rfloor>) \<le> of_int \<lfloor>x\<rfloor>"
    by (simp only: of_int_le_iff)
  also have "\<dots> \<le> x" by simp
  finally show ?thesis by (simp add: Math_floor_def)
qed

text \<open>
  C2. When at least one of the 8 sampled scale midpoints of \<^verbatim>\<open>findBestSizeAndEncode\<close>
  yields an encoding within the budget, the result is the one recorded at the largest
  sampled scale that fits: its width and height are those the code computes at that
  scale, in double arithmetic, its blob is within the budget, and no fitting sampled
  scale has a larger width or height.
\<close>

theorem findBestSizeAndEncode_largest_fitting:
  assumes "fitting_scales mk img cropPx \<noteq> []"
  shows "\<exists>r. findBestSizeAndEncode mk img cropPx = Inr (Some r) \<and>
           res_w r = max 1 (Math_floor (fl (of_int (Math_floor (area_width cropPx)) *
                        Max (set (fitting_scales mk img cropPx))))) \<and>
           res_h r = max 1 (Math_floor (fl (of_int (Math_floor (area_height cropPx)) *
                        Max (set (fitting_scales mk img cropPx))))) \<and>
           blob_size (res_blob r) \<le> MAX_BYTES \<and>
           (\<forall>s \<in> set (fitting_scales mk img cropPx).
              max 1 (Math_floor (fl (of_int (Math_floor (area_width cropPx)) * s))) \<le> res_w r \<and>
              max 1 (Math_floor (fl (of_int (Math_floor (area_height cropPx)) * s))) \<le> res_h r)"
proof -
  let ?W = "Math_floor (area_width cropPx)"
  let ?H = "Math_floor (area_height cropPx)"
  let ?fs = "fitting_scales mk img cropPx"
  let ?m = "Max (set ?fs)"
  from assms have lm: "last ?fs = ?m"
    by (rule fitting_scales_last_Max)
  from assms have "last ?fs \<in> set ?fs"
    by (rule last_in_set)
  with lm have mem: "?m \<in> set ?fs"
    by simp
  then have fit: "fits_scale mk img cropPx ?W ?H ?m"
    by (rule fitting_scales_fit)
  obtain enc where enc: "encodeJpegUnder2MB mk (canvas_at img cropPx ?W ?H ?m) = Some enc"
    using encodeJpegUnder2MB_Some by blast
  let ?r = "\<lparr>res_blob = enc_blob enc, res_q = enc_q enc,
             res_w = max 1 (Math_floor (fl (of_int ?W * ?m))),
             res_h = max 1 (Math_floor (fl (of_int ?H * ?m)))\<rparr>"
  from enc have "best_at mk img cropPx ?W ?H ?m = Some ?r"
    by (simp add: best_at_def)
  with assms lm have res: "findBestSizeAndEncode mk img cropPx = Inr (Some ?r)"
    by (simp add: findBestSizeAndEncode_cases)
  from fit enc have size: "blob_size (res_blob ?r) \<le> MAX_BYTES"
    by (simp add: fits_scale_def)
  have larger: "max 1 (Math_floor (fl (of_int ?W * s))) \<le> res_w ?r \<and>
      max 1 (Math_floor (fl (of_int ?H * s))) \<le> res_h ?r" if s: "s \<in> set ?fs" for s
  proof -
    from s have "s \<le> ?m" by simp
    moreover from fitting_scales_between [OF s] have "0 < s" by simp
    ultimately have
      "max 1 (Math_floor (fl (of_int ?W * s))) \<le> max 1 (Math_floor (fl (of_int ?W * ?m)))"
      "max 1 (Math_floor (fl (of_int ?H * s))) \<le> max 1 (Math_floor (fl (of_int ?H * ?m)))"
      by (simp_all only: scaled_size_mono)
    then show ?thesis
      by (simp only: size_result.select_convs simp_thms)
  qed
  from res size larger show ?thesis
    by (intro exI [of _ ?r]) simp
qed

text \<open>
  The search on a crop of 600\<times>800 pixels with the encoder that fits up to a width of
  390: the sums, midpoints and products that the code computes, each rounded to a
  double. The fourth midpoint is the double below 0.65, where the canvas is 389 and
  not 390 pixels wide.
\<close>

lemma fl_scale_2: "fl (21617278211378381 / 18014398509481984) = 5404319552844595 / 4503599627370496"
  by (subst fl_eval [where n = 52]) (simp_all add: round_half_even_def Let_def)

lemma fl_scale_3: "fl (5404319552844595 / 9007199254740992) = 5404319552844595 / 9007199254740992"
  by (subst fl_eval [where n = 53]) (simp_all add: round_half_even_def Let_def)

lemma fl_scale_4: "fl (405323966463344625 / 1125899906842624) = 360"
  by (subst fl_eval [where n = 44]) (simp_all add: round_half_even_def Let_def)

lemma fl_scale_5: "fl (135107988821114875 / 281474976710656) = 480"
  by (subst fl_eval [where n = 44]) (simp_all add: round_half_even_def Let_def)

lemma fl_scale_6: "fl (14411518807585587 / 9007199254740992) = 3602879701896397 / 2251799813685248"
  by (subst fl_eval [where n = 52]) (simp_all add: round_half_even_def Let_def)

lemma fl_scale_7: "fl (3602879701896397 / 4503599627370496) = 3602879701896397 / 4503599627370496"
  by (subst fl_eval [where n = 53]) (simp_all add: round_half_even_def Let_def)

lemma fl_scale_8: "fl (270215977642229775 / 562949953421312) = 480"
  by (subst fl_eval [where n = 44]) (simp_all add: round_half_even_def Let_def)

lemma fl_scale_9: "fl (90071992547409925 / 140737488355328) = 640"
  by (subst fl_eval [where n = 43]) (simp_all add: round_half_even_def Let_def)

lemma fl_scale_10: "fl (12610078956637389 / 9007199254740992) = 3152519739159347 / 2251799813685248"
  by (subst fl_eval [where n = 52]) (simp_all add: round_half_even_def Let_def)

lemma fl_scale_11: "fl (3152519739159347 / 4503599627370496) = 3152519739159347 / 4503599627370496"
  by (subst fl_eval [where n = 53]) (simp_all add: round_half_even_def Let_def)

lemma fl_scale_12: "fl (236438980436951025 / 562949953421312) = 420"
  by (subst fl_eval [where n = 44]) (simp_all add: round_half_even_def Let_def)

lemma fl_scale_13: "fl (78812993478983675 / 140737488355328) = 560"
  by (subst fl_eval [where n = 43]) (simp_all add: round_half_even_def Let_def)

lemma fl_scale_14: "fl (11709359031163289 / 9007199254740992) = 1463669878895411 / 1125899906842624"
  by (subst fl_eval [where n = 52]) (simp_all add: round_half_even_def Let_def)

lemma fl_scale_15: "fl (1463669878895411 / 2251799813685248) = 1463669878895411 / 2251799813685248"
  by (subst fl_eval [where n = 53]) (simp_all add: round_half_even_def Let_def)

lemma fl_scale_16: "fl (109775240917155825 / 281474976710656) = 6860952557322239 / 17592186044416"
  by (subst fl_eval [where n = 44]) (simp_all add: round_half_even_def Let_def)

lemma fl_scale_17: "fl (36591746972385275 / 70368744177664) = 4573968371548159 / 8796093022208"
  by (subst fl_eval [where n = 43]) (simp_all add: round_half_even_def Let_def)

lemma fl_scale_18: "fl (6079859496950169 / 4503599627370496) = 6079859496950169 / 4503599627370496"
  by (subst fl_eval [where n = 52]) (simp_all add: round_half_even_def Let_def)

lemma fl_scale_19: "fl (6079859496950169 / 9007199254740992) = 6079859496950169 / 9007199254740992"
  by (subst fl_eval [where n = 53]) (simp_all add: round_half_even_def Let_def)

lemma fl_scale_20: "fl (455989462271262675 / 1125899906842624) = 7124835347988479 / 17592186044416"
  by (subst fl_eval [where n = 44]) (simp_all add: round_half_even_def Let_def)

lemma fl_scale_21: "fl (151996487423754225 / 281474976710656) = 540"
  by (subst fl_eval [where n = 43]) (simp_all add: round_half_even_def Let_def)

lemma fl_scale_22: "fl (11934539012531813 / 9007199254740992) = 2983634753132953 / 2251799813685248"
  by (subst fl_eval [where n = 52]) (simp_all add: round_half_even_def Let_def)

lemma fl_scale_23: "fl (2983634753132953 / 4503599627370496) = 2983634753132953 / 4503599627370496"
  by (subst fl_eval [where n = 53]) (simp_all add: round_half_even_def Let_def)

lemma fl_scale_24: "fl (223772606484971475 / 562949953421312) = 6992893952655359 / 17592186044416"
  by (subst fl_eval [where n = 44]) (simp_all add: round_half_even_def Let_def)

lemma fl_scale_25: "fl (74590868828323825 / 140737488355328) = 4661929301770239 / 8796093022208"
  by (subst fl_eval [where n = 43]) (simp_all add: round_half_even_def Let_def)

lemma fl_scale_26: "fl (5910974510923775 / 4503599627370496) = 5910974510923775 / 4503599627370496"
  by (subst fl_eval [where n = 52]) (simp_all add: round_half_even_def Let_def)

lemma fl_scale_27: "fl (5910974510923775 / 9007199254740992) = 5910974510923775 / 9007199254740992"
  by (subst fl_eval [where n = 53]) (simp_all add: round_half_even_def Let_def)

lemma fl_scale_28: "fl (443323088319283125 / 1125899906842624) = 6926923254988799 / 17592186044416"
  by (subst fl_eval [where n = 44]) (simp_all add: round_half_even_def Let_def)

lemma fl_scale_29: "fl (147774362773094375 / 281474976710656) = 4617948836659199 / 8796093022208"
  by (subst fl_eval [where n = 43]) (simp_all add: round_half_even_def Let_def)

lemma fl_scale_30: "fl (11765654026505419 / 9007199254740992) = 2941413506626355 / 2251799813685248"
  by (subst fl_eval [where n = 52]) (simp_all add: round_half_even_def Let_def)

lemma fl_scale_31: "fl (2941413506626355 / 4503599627370496) = 2941413506626355 / 4503599627370496"
  by (subst fl_eval [where n = 53]) (simp_all add: round_half_even_def Let_def)

lemma fl_scale_32: "fl (220606012996976625 / 562949953421312) = 3135 / 8"
  by (subst fl_eval [where n = 44]) (simp_all add: round_half_even_def Let_def)

lemma fl_scale_33: "fl (73535337665658875 / 140737488355328) = 1045 / 2"
  by (subst fl_eval [where n = 43]) (simp_all add: round_half_even_def Let_def)

lemmas fl_scale_values =
  fl_one_fifth fl_scale_2 fl_scale_3 fl_scale_4 fl_scale_5 fl_scale_6 fl_scale_7 fl_scale_8 fl_scale_9 fl_scale_10 fl_scale_11 fl_scale_12 fl_scale_13 fl_scale_14 fl_scale_15 fl_scale_16 fl_scale_17 fl_scale_18 fl_scale_19 fl_scale_20 fl_scale_21 fl_scale_22 fl_scale_23 fl_scale_24 fl_scale_25 fl_scale_26 fl_scale_27 fl_scale_28 fl_scale_29 fl_scale_30 fl_scale_31 fl_scale_32 fl_scale_33

lemma width_encoder_fits:
  "fits_scale width_encoder img cropPx maxW maxH s =
     (max 1 (Math_floor (fl (of_int maxW * s))) \<le> 390)"
proof -
  have "blob_size (width_encoder c q) \<le> blob_size (width_encoder c q')" for c q q'
    by (simp add: width_encoder_def)
  then have "fits_scale width_encoder img cropPx maxW maxH s =
      (blob_size (width_encoder (canvas_at img cropPx maxW maxH s) 0.5) \<le> MAX_BYTES)"
    by (rule fits_scale_monotone)
  then show ?thesis
    by (simp add: width_encoder_def canvas_at_def draw_canvas_def MAX_BYTES_def)
qed

lemma width_encoder_sampled:
  "sampled_scales width_encoder ex_image crop_600_800 =
     [5404319552844595 / 9007199254740992, 3602879701896397 / 4503599627370496,
      3152519739159347 / 4503599627370496, 1463669878895411 / 2251799813685248,
      6079859496950169 / 9007199254740992, 2983634753132953 / 4503599627370496,
      5910974510923775 / 9007199254740992, 2941413506626355 / 4503599627370496]"
  unfolding sampled_scales_def nat8
  by (simp add: Let_def width_encoder_fits crop_600_800_def Math_floor_def fl_scale_values)

lemma width_encoder_fitting:
  "fitting_scales width_encoder ex_image crop_600_800 =
     [5404319552844595 / 9007199254740992, 1463669878895411 / 2251799813685248]"
  unfolding fitting_scales_def width_encoder_sampled
  by (simp add: width_encoder_fits crop_600_800_def Math_floor_def fl_scale_values)

theorem findBestSizeAndEncode_largest_fitting_witness:
  "fitting_scales width_encoder ex_image crop_600_800 \<noteq> [] \<and>
   (\<exists>r. findBestSizeAndEncode width_encoder ex_image crop_600_800 = Inr (Some r) \<and>
      res_w r = 389 \<and> res_h r = 519 \<and> blob_size (res_blob r) \<le> MAX_BYTES)"
proof -
  have ne: "fitting_scales width_encoder ex_image crop_600_800 \<noteq> []"
    by (simp add: width_encoder_fitting)
  have w: "max 1 (Math_floor (fl (of_int (Math_floor (area_width crop_600_800)) *
      Max (set (fitting_scales width_encoder ex_image crop_600_800))))) = 389"
    unfolding width_encoder_fitting
    by (simp add: crop_600_800_def Math_floor_def fl_scale_values)
  have h: "max 1 (Math_floor (fl (of_int (Math_floor (area_height crop_600_800)) *
      Max (set (fitting_scales width_encoder ex_image crop_600_800))))) = 519"
    unfolding width_encoder_fitting
    by (simp add: crop_600_800_def Math_floor_def fl_scale_values)
  from findBestSizeAndEncode_largest_fitting [OF ne] w h ne show ?thesis
    by auto
qed

text \<open>
  If every encoding the search makes at a scale is over the budget, that scale does
  not fit: the 8 midpoints fail, and so does the encoding at quality 0.5 that
  \<^verbatim>\<open>encodeJpegUnder2MB\<close> falls back to.
\<close>

lemma over_budget_not_fits:
  assumes "\<forall>q \<in> set (0.5 # sampled_qualities mk (canvas_at img cropPx maxW maxH s)).
             MAX_BYTES < blob_size (mk (canvas_at img cropPx maxW maxH s) q)"
  shows "\<not> fits_scale mk img cropPx maxW maxH s"
proof -
  let ?c = "canvas_at img cropPx maxW maxH s"
  from assms have "filter (fits_budget mk ?c) (sampled_qualities mk ?c) = []"
    by (simp add: filter_empty_conv fits_budget_def not_le)
  moreover from assms have "MAX_BYTES < blob_size (mk ?c 0.5)"
    by simp
  ultimately show ?thesis
    by (simp add: fits_scale_def encodeJpegUnder2MB_cases)
qed

lemma fallback_result_Some:
  "\<exists>r. fallback_result mk img cropPx = Some r \<and>
       res_w r = min 800 (Math_floor (area_width cropPx)) \<and>
       res_h r = Math_round (of_int (res_w r) * (ASPECT_H / ASPECT_W)) \<and>
       encodeJpegUnder2MB mk (draw_canvas img cropPx (res_w r) (res_h r)) =
         Some \<lparr>enc_blob = res_blob r, enc_q = res_q r\<rparr>"
proof -
  let ?w = "min 800 (Math_floor (area_width cropPx))"
  let ?h = "Math_round (of_int ?w * (ASPECT_H / ASPECT_W))"
  obtain enc where "encodeJpegUnder2MB mk (draw_canvas img cropPx ?w ?h) = Some enc"
    using encodeJpegUnder2MB_Some by blast
  then show ?thesis
    by (simp add: fallback_result_def Let_def)
qed

lemma over_encoder_result:
  "encodeJpegUnder2MB over_encoder c = Some r \<Longrightarrow> MAX_BYTES < blob_size (enc_blob r)"
  by (auto simp add: encodeJpegUnder2MB_cases Let_def over_encoder_def MAX_BYTES_def split: if_splits)

text \<open>
  The height of the fallback branch, \<^verbatim>\<open>Math.round(targetW * (ASPECT_H / ASPECT_W))\<close>,
  is the same in double arithmetic as in exact arithmetic: \<open>4 * w / 3 + 1 / 2\<close> is at
  least a sixth away from every integer, and the two roundings move it by far less,
  for every width up to \<open>2 ^ 40\<close> in absolute value.
\<close>

lemma fl_four_thirds: "fl (4 / 3) = 6004799503160661 / 4503599627370496"
  by (subst fl_eval [where n = 52]) (simp_all add: round_half_even_def Let_def)

lemma round_near_thirds:
  fixes w :: int and e :: real
  assumes "\<bar>e\<bar> < 1 / 6"
  shows "\<lfloor>of_int w * (4 / 3) + e + 1 / 2\<rfloor> = \<lfloor>of_int w * (4 / 3) + 1 / 2 :: real\<rfloor>"
proof -
  let ?k = "(8 * w + 3) div 6" and ?r = "(8 * w + 3) mod 6"
  have r: "1 \<le> ?r \<and> ?r \<le> 5"
    by presburger
  then have r': "1 \<le> real_of_int ?r \<and> real_of_int ?r \<le> 5"
    by linarith
  have "real_of_int (6 * ?k + ?r) = real_of_int (8 * w + 3)"
    by (simp only: mult_div_mod_eq)
  then have "6 * real_of_int ?k + real_of_int ?r = 8 * real_of_int w + 3"
    by (simp only: of_int_add of_int_mult of_int_numeral)
  then have y: "of_int w * (4 / 3) + 1 / 2 = real_of_int ?k + real_of_int ?r / 6"
    by (simp only: times_divide_eq_right)
  have y': "of_int w * (4 / 3) + e + 1 / 2 = real_of_int ?k + real_of_int ?r / 6 + e"
    using y by linarith
  have a: "\<lfloor>real_of_int ?k + real_of_int ?r / 6\<rfloor> = ?k"
    using r' by (intro floor_unique) linarith+
  have b: "\<lfloor>real_of_int ?k + real_of_int ?r / 6 + e\<rfloor> = ?k"
    using r' assms by (intro floor_unique) (linarith+)
  show ?thesis
    unfolding y y' by (simp only: a b)
qed

lemma fallback_height_double:
  assumes "\<bar>w\<bar> \<le> 2 ^ 40"
  shows "Math_round (fl (of_int w * fl (ASPECT_H / ASPECT_W))) =
         Math_round (of_int w * (ASPECT_H / ASPECT_W))"
proof -
  let ?c = "6004799503160661 / 4503599627370496 :: real"
  let ?x = "of_int w * ?c"
  from assms have w: "\<bar>real_of_int w\<bar> \<le> 2 ^ 40"
    by (simp flip: of_int_abs)
  have x: "\<bar>?x\<bar> \<le> 2 ^ 41"
  proof -
    have "\<bar>?x\<bar> = \<bar>real_of_int w\<bar> * ?c"
      by (simp add: abs_mult)
    also have "\<dots> \<le> 2 ^ 40 * 2"
      using w by (intro mult_mono) simp_all
    finally show ?thesis by simp
  qed
  have "\<bar>fl ?x - ?x\<bar> \<le> \<bar>?x\<bar> / 2 ^ 53"
    by (rule fl_error)
  also have "\<dots> \<le> 2 ^ 41 / 2 ^ 53"
    using x by simp
  finally have e1: "\<bar>fl ?x - ?x\<bar> \<le> 1 / 4096"
    by simp
  have "?x - of_int w * (4 / 3) = - (real_of_int w / (3 * 2 ^ 52))"
    by simp
  then have "\<bar>?x - of_int w * (4 / 3)\<bar> = \<bar>real_of_int w\<bar> / (3 * 2 ^ 52)"
    by (simp only: abs_minus_cancel abs_divide) simp
  also have "\<dots> \<le> 2 ^ 40 / (3 * 2 ^ 52)"
    using w by (intro divide_right_mono) simp_all
  finally have e2: "\<bar>?x - of_int w * (4 / 3)\<bar> \<le> 1 / 4096"
    by simp
  define e where "e = fl ?x - of_int w * (4 / 3)"
  from e1 e2 have "\<bar>e\<bar> < 1 / 6"
    unfolding e_def by linarith
  from round_near_thirds [OF this, of w] have
    "\<lfloor>fl ?x + 1 / 2\<rfloor> = \<lfloor>of_int w * (4 / 3) + 1 / 2 :: real\<rfloor>"
    by (simp add: e_def)
  then show ?thesis
    by (simp add: Math_round_def ASPECT_H_def ASPECT_W_def fl_four_thirds)
qed

text \<open>
  C5. For every crop region that the encoder cannot bring under the budget at any
  scale and quality that the search encodes at (the 8 midpoint qualities and the
  quality 0.5 of the inner fallback, at each sampled scale), \<^verbatim>\<open>findBestSizeAndEncode\<close>
  takes its final fallback branch: it raises nothing and returns a result that is not
  \<^verbatim>\<open>null\<close>, of width \<open>min 800 maxW \<le> 800\<close>, where \<open>maxW\<close> is the floor of the crop width, and of
  height \<open>Math.round (width * (ASPECT_H / ASPECT_W))\<close>, encoded by
  \<^verbatim>\<open>encodeJpegUnder2MB\<close> at that size. That result may exceed the budget: with some
  encoder it does.
\<close>

theorem findBestSizeAndEncode_fallback:
  "(\<forall>s \<in> set (sampled_scales mk img cropPx).
      \<forall>q \<in> set (0.5 # sampled_qualities mk
                (canvas_at img cropPx (Math_floor (area_width cropPx))
                   (Math_floor (area_height cropPx)) s)).
        MAX_BYTES < blob_size (mk (canvas_at img cropPx (Math_floor (area_width cropPx))
                                    (Math_floor (area_height cropPx)) s) q))
   \<longrightarrow>
   (\<exists>r. findBestSizeAndEncode mk img cropPx = Inr (Some r) \<and>
      res_w r = min 800 (Math_floor (area_width cropPx)) \<and>
      res_w r \<le> 800 \<and>
      res_h r = Math_round (of_int (res_w r) * (ASPECT_H / ASPECT_W)) \<and>
      encodeJpegUnder2MB mk (draw_canvas img cropPx (res_w r) (res_h r)) =
        Some \<lparr>enc_blob = res_blob r, enc_q = res_q r\<rparr>) \<and>
   (\<exists>mk' r'. findBestSizeAndEncode mk' img cropPx = Inr (Some r') \<and>
      MAX_BYTES < blob_size (res_blob r'))"
proof (intro conjI impI)
  assume over: "\<forall>s \<in> set (sampled_scales mk img cropPx).
      \<forall>q \<in> set (0.5 # sampled_qualities mk
                (canvas_at img cropPx (Math_floor (area_width cropPx))
                   (Math_floor (area_height cropPx)) s)).
        MAX_BYTES < blob_size (mk (canvas_at img cropPx (Math_floor (area_width cropPx))
                                    (Math_floor (area_height cropPx)) s) q)"
  have "\<not> fits_scale mk img cropPx (Math_floor (area_width cropPx))
      (Math_floor (area_height cropPx)) s" if "s \<in> set (sampled_scales mk img cropPx)" for s
    using over that by (intro over_budget_not_fits) blast
  then have "fitting_scales mk img cropPx = []"
    by (simp add: fitting_scales_def filter_empty_conv)
  then have res: "findBestSizeAndEncode mk img cropPx = Inr (fallback_result mk img cropPx)"
    by (simp add: findBestSizeAndEncode_cases)
  from fallback_result_Some [of mk img cropPx] obtain r where
    r: "fallback_result mk img cropPx = Some r"
      "res_w r = min 800 (Math_floor (area_width cropPx))"
      "res_h r = Math_round (of_int (res_w r) * (ASPECT_H / ASPECT_W))"
      "encodeJpegUnder2MB mk (draw_canvas img cropPx (res_w r) (res_h r)) =
         Some \<lparr>enc_blob = res_blob r, enc_q = res_q r\<rparr>"
    by blast
  from r(2) have "res_w r \<le> 800" by simp
  with res r show "\<exists>r. findBestSizeAndEncode mk img cropPx = Inr (Some r) \<and>
      res_w r = min 800 (Math_floor (area_width cropPx)) \<and>
      res_w r \<le> 800 \<and>
      res_h r = Math_round (of_int (res_w r) * (ASPECT_H / ASPECT_W)) \<and>
      encodeJpegUnder2MB mk (draw_canvas img cropPx (res_w r) (res_h r)) =
        Some \<lparr>enc_blob = res_blob r, enc_q = res_q r\<rparr>"
    by (intro exI [of _ r]) simp
next
  have res: "findBestSizeAndEncode over_encoder img cropPx =
      Inr (fallback_result over_encoder img cropPx)"
    by (simp add: findBestSizeAndEncode_cases over_encoder_fitting)
  from fallback_result_Some [of over_encoder img cropPx] obtain r where
    r: "fallback_result over_encoder img cropPx = Some r"
      "encodeJpegUnder2MB over_encoder (draw_canvas img cropPx (res_w r) (res_h r)) =
         Some \<lparr>enc_blob = res_blob r, enc_q = res_q r\<rparr>"
    by blast
  from over_encoder_result [OF r(2)] have "MAX_BYTES < blob_size (res_blob r)"
    by simp
  with res r(1) show "\<exists>mk' r'. findBestSizeAndEncode mk' img cropPx = Inr (Some r') \<and>
      MAX_BYTES < blob_size (res_blob r')"
    by (intro exI [of _ over_encoder] exI [of _ r]) simp
qed

theorem findBestSizeAndEncode_fallback_witness:
  "\<exists>r. findBestSizeAndEncode over_encoder ex_image ex_crop = Inr (Some r) \<and>
      res_w r = 800 \<and> res_h r = 1067"
proof -
  have over: "\<forall>s \<in> set (sampled_scales over_encoder ex_image ex_crop).
      \<forall>q \<in> set (0.5 # sampled_qualities over_encoder
                (canvas_at ex_image ex_crop (Math_floor (area_width ex_crop))
                   (Math_floor (area_height ex_crop)) s)).
        MAX_BYTES < blob_size (over_encoder (canvas_at ex_image ex_crop
                                 (Math_floor (area_width ex_crop))
                                 (Math_floor (area_height ex_crop)) s) q)"
    by (simp add: over_encoder_def MAX_BYTES_def)
  have w: "min 800 (Math_floor (area_width ex_crop)) = 800"
    by (simp add: ex_crop_def Math_floor_def)
  have h: "Math_round (of_int 800 * (ASPECT_H / ASPECT_W)) = 1067"
    by (simp add: Math_round_def ASPECT_H_def ASPECT_W_def)
  from findBestSizeAndEncode_fallback [of over_encoder ex_image ex_crop] over
  obtain r where "findBestSizeAndEncode over_encoder ex_image ex_crop = Inr (Some r)"
      "res_w r = min 800 (Math_floor (area_width ex_crop))"
      "res_h r = Math_round (of_int (res_w r) * (ASPECT_H / ASPECT_W))"
    by blast
  with w h have "findBestSizeAndEncode over_encoder ex_image ex_crop = Inr (Some r) \<and>
      res_w r = 800 \<and> res_h r = 1067"
    by simp
  then show ?thesis by blast
qed


text \<open>
  Where the result does stay within the crop: for a crop of at least one pixel each
  way, the width always, and the height whenever a sampled scale fits or the crop is
  at least 1067 pixels high, which is the largest height the fallback can return.
\<close>

lemma fallback_height_le: "Math_round (of_int (min 800 w) * (ASPECT_H / ASPECT_W)) \<le> 1067"
proof -
  have "real_of_int (min 800 w) \<le> 800"
    by simp
  then have "real_of_int (min 800 w) * (4 / 3) + 1 / 2 \<le> 800 * (4 / 3) + 1 / 2"
    by simp
  then have "\<lfloor>real_of_int (min 800 w) * (4 / 3) + 1 / 2\<rfloor> \<le> \<lfloor>800 * (4 / 3) + 1 / 2 :: real\<rfloor>"
    by (rule floor_mono)
  then show ?thesis
    by (simp add: Math_round_def ASPECT_H_def ASPECT_W_def)
qed

lemma findBestSizeAndEncode_within_crop:
  assumes "1 \<le> area_width cropPx" and "area_width cropPx \<le> 2 ^ 53"
    and "1 \<le> area_height cropPx" and "area_height cropPx \<le> 2 ^ 53"
  shows "\<exists>r. findBestSizeAndEncode mk img cropPx = Inr (Some r) \<and>
           real_of_int (res_w r) \<le> area_width cropPx \<and>
           (fitting_scales mk img cropPx \<noteq> [] \<or> 1067 \<le> area_height cropPx \<longrightarrow>
              real_of_int (res_h r) \<le> area_height cropPx)"
proof (cases "fitting_scales mk img cropPx = []")
  case True
  from fallback_result_Some [of mk img cropPx] obtain r where
    r: "fallback_result mk img cropPx = Some r"
      "res_w r = min 800 (Math_floor (area_width cropPx))"
      "res_h r = Math_round (of_int (res_w r) * (ASPECT_H / ASPECT_W))"
    by blast
  have "real_of_int (min 800 \<lfloor>area_width cropPx\<rfloor>) \<le> of_int \<lfloor>area_width cropPx\<rfloor>"
    by simp
  also have "\<dots> \<le> area_width cropPx" by simp
  finally have w: "real_of_int (res_w r) \<le> area_width cropPx"
    using r(2) by (simp add: Math_floor_def)
  from r(2,3) fallback_height_le [of "Math_floor (area_width cropPx)"]
  have "res_h r \<le> 1067" by simp
  then have "real_of_int (res_h r) \<le> real_of_int 1067"
    by (simp only: of_int_le_iff)
  then have "real_of_int (res_h r) \<le> 1067"
    by simp
  then have "1067 \<le> area_height cropPx \<longrightarrow> real_of_int (res_h r) \<le> area_height cropPx"
    by simp
  with True r(1) w show ?thesis
    by (simp add: findBestSizeAndEncode_cases)
next
  case False
  let ?W = "Math_floor (area_width cropPx)"
  let ?H = "Math_floor (area_height cropPx)"
  let ?s = "last (fitting_scales mk img cropPx)"
  from False have "?s \<in> set (fitting_scales mk img cropPx)"
    by (rule last_in_set)
  from fitting_scales_between [OF this] have s: "0 < ?s" "?s < 1"
    by simp_all
  obtain enc where "encodeJpegUnder2MB mk (canvas_at img cropPx ?W ?H ?s) = Some enc"
    using encodeJpegUnder2MB_Some by blast
  then have at: "best_at mk img cropPx ?W ?H ?s =
      Some \<lparr>res_blob = enc_blob enc, res_q = enc_q enc,
            res_w = max 1 (Math_floor (fl (of_int ?W * ?s))),
            res_h = max 1 (Math_floor (fl (of_int ?H * ?s)))\<rparr>"
    by (simp add: best_at_def)
  have "real_of_int (max 1 (Math_floor (fl (of_int ?W * ?s)))) \<le> area_width cropPx"
    using assms(1,2) s by (rule scaled_size_le)
  moreover have "real_of_int (max 1 (Math_floor (fl (of_int ?H * ?s)))) \<le> area_height cropPx"
    using assms(3,4) s by (rule scaled_size_le)
  ultimately show ?thesis
    using False at by (simp add: findBestSizeAndEncode_cases)
qed

section \<open>Properties of the crop geometry\<close>

lemma baseH_nonneg: "0 \<le> baseH img"
  by (simp add: baseH_def Let_def Math_round_def TARGET_AR_def ASPECT_W_def ASPECT_H_def)

lemma baseH_le_height: "baseH img \<le> real (naturalHeight img)"
proof (cases "real (naturalWidth img) / TARGET_AR \<le> real (naturalHeight img)")
  case True
  then have "real (naturalWidth img) / TARGET_AR + 1 / 2 < real (naturalHeight img) + 1"
    by simp
  then have "\<lfloor>real (naturalWidth img) / TARGET_AR + 1 / 2\<rfloor> \<le> int (naturalHeight img)"
    by (simp add: floor_le_iff)
  then have "real_of_int \<lfloor>real (naturalWidth img) / TARGET_AR + 1 / 2\<rfloor>
      \<le> real_of_int (int (naturalHeight img))"
    by (simp only: of_int_le_iff)
  with True show ?thesis
    by (simp add: baseH_def Let_def Math_round_def)
next
  case False
  then show ?thesis
    by (simp add: baseH_def Let_def)
qed


lemma nudgeFaceY_loaded:
  "imgEl st = Some img \<Longrightarrow>
     nudgeFaceY v st =
       st\<lparr>faceYFrac := v,
          crop := \<lparr>crop_x = - (curLeft img st / real (naturalWidth img)) * 100,
                   crop_y = - (newTop v img st / real (naturalHeight img)) * 100\<rparr>\<rparr>"
  by (simp add: nudgeFaceY_def Let_def)

lemma nudgeFaceY_unloaded: "imgEl st = None \<Longrightarrow> nudgeFaceY v st = st\<lparr>faceYFrac := v\<rparr>"
  by (simp add: nudgeFaceY_def Let_def)



text \<open>
  In exact arithmetic \<^verbatim>\<open>nudgeFaceY\<close> changes only the vertical component of the crop
  offset: it never writes the zoom, and for a raster of a width other than zero, or
  none, the value it writes to \<^verbatim>\<open>crop.x\<close> is the one it read.
\<close>

lemma nudgeFaceY_keeps_zoom: "zoom (nudgeFaceY v st) = zoom st"
  by (cases "imgEl st") (simp_all add: nudgeFaceY_loaded nudgeFaceY_unloaded)

lemma nudgeFaceY_double_keeps_zoom: "zoom (nudgeFaceY_double v st) = zoom st"
  by (cases "imgEl st") (simp_all add: nudgeFaceY_double_def Let_def)

lemma nudgeFaceY_keeps_x_exact:
  assumes "\<forall>img. imgEl st = Some img \<longrightarrow> 0 < naturalWidth img"
  shows "crop_x (crop (nudgeFaceY v st)) = crop_x (crop st)"
proof (cases "imgEl st")
  case None
  then show ?thesis
    by (simp add: nudgeFaceY_unloaded)
next
  case (Some img)
  with assms have "real (naturalWidth img) \<noteq> 0"
    by simp
  then have "- (curLeft img st / real (naturalWidth img)) * 100 = crop_x (crop st)"
    by (simp add: curLeft_def)
  with Some show ?thesis
    by (simp add: nudgeFaceY_loaded)
qed

text \<open>
  The doubles that the round trip of \<^verbatim>\<open>crop.x = -24.8\<close> goes through on a raster
  1000 pixels wide.
\<close>

lemma fl_nudge_1: "fl (1 / 100) = 5764607523034235 / 576460752303423488"
  by (subst fl_eval [where n = 59]) (simp_all add: round_half_even_def Let_def)

lemma fl_nudge_2: "fl (40240300653644916111702381849215 / 162259276829213363391578010288128) = 8935141660703065 / 36028797018963968"
  by (subst fl_eval [where n = 55]) (simp_all add: round_half_even_def Let_def)

lemma fl_nudge_3: "fl (1116892707587883125 / 4503599627370496) = 8725724278030337 / 35184372088832"
  by (subst fl_eval [where n = 45]) (simp_all add: round_half_even_def Let_def)

lemma fl_nudge_4: "fl (8725724278030337 / 35184372088832000) = 8935141660703065 / 36028797018963968"
  by (subst fl_eval [where n = 55]) (simp_all add: round_half_even_def Let_def)

lemma fl_nudge_5: "fl (223378541517576625 / 9007199254740992) = 3490289711212135 / 140737488355328"
  by (subst fl_eval [where n = 48]) (simp_all add: round_half_even_def Let_def)

lemma fl_nudge_x: "fl (124 / 5) = 6980579422424269 / 281474976710656"
  by (subst fl_eval [where n = 48]) (simp_all add: round_half_even_def Let_def)

lemmas fl_nudge_values =
  fl_nudge_1 fl_nudge_2 fl_nudge_3 fl_nudge_4 fl_nudge_5 fl_nudge_x

text \<open>
  C7 fails on the code. \<^verbatim>\<open>nudgeFaceY\<close> does not write back the \<^verbatim>\<open>crop.x\<close> it read
  but \<^verbatim>\<open>- ((-crop.x * 0.01 * W) / W) * 100\<close>, which in doubles is not the identity:
  on a raster 1000 pixels wide, the double \<^verbatim>\<open>-24.8\<close> comes back as
  \<^verbatim>\<open>-24.800000000000004\<close>, the next double below it, whatever the new fraction. The
  zoom is left as it is.
\<close>

theorem nudgeFaceY_changes_x:
  "crop_x (crop ex_double_state) = - (6980579422424269 / 281474976710656) \<and>
   crop_x (crop (nudgeFaceY_double v ex_double_state)) =
     - (3490289711212135 / 140737488355328) \<and>
   crop_x (crop (nudgeFaceY_double v ex_double_state)) \<noteq> crop_x (crop ex_double_state) \<and>
   zoom (nudgeFaceY_double v ex_double_state) = zoom ex_double_state"
  by (simp add: nudgeFaceY_double_def ex_double_state_def ex_square_def Let_def fl_minus
      fl_nudge_values)

text \<open>
  C10. Called with the current fraction \<^verbatim>\<open>faceYFrac\<close> on a state whose view top already
  lies between 0 and the height of the raster less the view height, \<^verbatim>\<open>nudgeFaceY\<close>
  leaves the crop offset as it is, in \<^verbatim>\<open>x\<close> and in \<^verbatim>\<open>y\<close>, for every state whose
  raster, if one is loaded, has a width and a height other than zero.
\<close>

theorem nudgeFaceY_same_fraction:
  assumes "\<forall>img. imgEl st = Some img \<longrightarrow>
             0 < naturalWidth img \<and> 0 < naturalHeight img \<and>
             0 \<le> curTop img st \<and>
             curTop img st \<le> real (naturalHeight img) - baseH img / zoom st"
  shows "crop (nudgeFaceY (faceYFrac st) st) = crop st"
proof (cases "imgEl st")
  case None
  then show ?thesis
    by (simp add: nudgeFaceY_unloaded)
next
  case (Some img)
  with assms have W: "real (naturalWidth img) \<noteq> 0" and H: "real (naturalHeight img) \<noteq> 0"
    and top: "0 \<le> curTop img st" "curTop img st \<le> real (naturalHeight img) - viewH img st"
    by (simp_all add: viewH_def)
  from top have "newTop (faceYFrac st) img st = curTop img st"
    by (simp add: newTop_def Let_def)
  with H have y: "- (newTop (faceYFrac st) img st / real (naturalHeight img)) * 100 =
      crop_y (crop st)"
    by (simp add: curTop_def)
  from W have x: "- (curLeft img st / real (naturalWidth img)) * 100 = crop_x (crop st)"
    by (simp add: curLeft_def)
  from Some x y show ?thesis
    by (simp add: nudgeFaceY_loaded)
qed

theorem nudgeFaceY_same_fraction_witness:
  "crop (nudgeFaceY 0.38 ex_state) = \<lparr>crop_x = - 12.5, crop_y = - 12\<rparr>"
proof -
  have "\<forall>img. imgEl ex_state = Some img \<longrightarrow>
      0 < naturalWidth img \<and> 0 < naturalHeight img \<and>
      0 \<le> curTop img ex_state \<and>
      curTop img ex_state \<le> real (naturalHeight img) - baseH img / zoom ex_state"
    by (simp add: ex_state_def ex_square_def curTop_def baseH_def Let_def TARGET_AR_def
        ASPECT_W_def ASPECT_H_def)
  from nudgeFaceY_same_fraction [OF this] show ?thesis
    by (simp add: ex_state_def)
qed

text \<open>
  What \<^verbatim>\<open>autoAlign\<close> writes for a loaded raster: a zoom between 1 and 5, and offsets
  from a left and a top that went through the two clamps.
\<close>

lemma autoAlign_loaded:
  assumes "imgEl st = Some img"
  shows "\<exists>z l t. autoAlign face st =
             st\<lparr>zoom := z,
                crop := \<lparr>crop_x = - (max 0 (min l (real (naturalWidth img) -
                                     baseH img / z * TARGET_AR)) / real (naturalWidth img)) * 100,
                         crop_y = - (max 0 (min t (real (naturalHeight img) -
                                     baseH img / z)) / real (naturalHeight img)) * 100\<rparr>\<rparr> \<and>
           1 \<le> z \<and> z \<le> 5"
proof (cases face)
  case None
  show ?thesis
    unfolding autoAlign_def Let_def None assms option.case
    by (intro exI conjI) (rule refl, simp_all)
next
  case (Some f)
  show ?thesis
    unfolding autoAlign_def Let_def Some assms option.case
    by (intro exI conjI) (rule refl, simp_all)
qed

lemma baseH_width: "baseH img * TARGET_AR \<le> real (naturalWidth img) + 3 / 8"
proof (cases "real (naturalWidth img) / TARGET_AR \<le> real (naturalHeight img)")
  case True
  let ?x = "real (naturalWidth img) / (3 / 4) + 1 / 2"
  have "real_of_int \<lfloor>?x\<rfloor> \<le> ?x"
    by (rule of_int_floor_le)
  then have "real_of_int \<lfloor>?x\<rfloor> * (3 / 4) \<le> ?x * (3 / 4)"
    by (rule mult_right_mono) simp
  also have "\<dots> = real (naturalWidth img) + 3 / 8"
    by simp
  finally have "real_of_int \<lfloor>?x\<rfloor> * (3 / 4) \<le> real (naturalWidth img) + 3 / 8" .
  moreover from True have "baseH img = real_of_int \<lfloor>?x\<rfloor>"
    by (simp add: baseH_def Let_def Math_round_def TARGET_AR_def ASPECT_W_def ASPECT_H_def)
  moreover have "TARGET_AR = 3 / 4"
    by (simp add: TARGET_AR_def ASPECT_W_def ASPECT_H_def)
  ultimately show ?thesis
    by (simp only:)
next
  case False
  then show ?thesis
    by (simp add: baseH_def Let_def TARGET_AR_def ASPECT_W_def ASPECT_H_def)
qed

text \<open>
  The part of C4 that holds for every loaded raster with a width and a height other
  than zero, and every face box or none: the zoom is between 1 and 5, the view is
  inside the raster vertically and does not start left of it, and its right edge is
  at most 3/8 of a pixel beyond the raster.
\<close>

lemma autoAlign_view_bounds:
  assumes "imgEl st = Some img" and "0 < naturalWidth img" and "0 < naturalHeight img"
  shows "1 \<le> zoom (autoAlign face st) \<and> zoom (autoAlign face st) \<le> 5 \<and>
         0 \<le> curTop img (autoAlign face st) \<and>
         curTop img (autoAlign face st) + viewH img (autoAlign face st)
           \<le> real (naturalHeight img) \<and>
         0 \<le> curLeft img (autoAlign face st) \<and>
         curLeft img (autoAlign face st) + viewW img (autoAlign face st)
           \<le> real (naturalWidth img) + 3 / 8"
proof -
  let ?W = "real (naturalWidth img)"
  let ?H = "real (naturalHeight img)"
  from autoAlign_loaded [OF assms(1), of face] obtain z l t where
    eq: "autoAlign face st =
           st\<lparr>zoom := z,
              crop := \<lparr>crop_x = - (max 0 (min l (?W - baseH img / z * TARGET_AR)) / ?W) * 100,
                       crop_y = - (max 0 (min t (?H - baseH img / z)) / ?H) * 100\<rparr>\<rparr>"
    and z: "1 \<le> z" "z \<le> 5"
    by blast
  from assms(2,3) have W: "?W \<noteq> 0" and H: "?H \<noteq> 0"
    by simp_all
  have vH: "viewH img (autoAlign face st) = baseH img / z"
    by (simp add: eq viewH_def)
  have vW: "viewW img (autoAlign face st) = baseH img / z * TARGET_AR"
    by (simp add: eq viewW_def viewH_def)
  have top: "curTop img (autoAlign face st) = max 0 (min t (?H - baseH img / z))"
    using H by (simp add: eq curTop_def)
  have left: "curLeft img (autoAlign face st) = max 0 (min l (?W - baseH img / z * TARGET_AR))"
    using W by (simp add: eq curLeft_def)
  have "baseH img * 1 \<le> baseH img * z"
    using z(1) baseH_nonneg [of img] by (rule mult_left_mono)
  then have small: "baseH img / z \<le> baseH img"
    using z(1) by (simp add: divide_le_eq)
  with baseH_le_height [of img] have fitH: "baseH img / z \<le> ?H"
    by simp
  have ar: "0 \<le> TARGET_AR"
    by (simp add: TARGET_AR_def ASPECT_W_def ASPECT_H_def)
  from small ar have "baseH img / z * TARGET_AR \<le> baseH img * TARGET_AR"
    by (rule mult_right_mono)
  with baseH_width [of img] have fitW: "baseH img / z * TARGET_AR \<le> ?W + 3 / 8"
    by simp
  have "0 \<le> baseH img / z * TARGET_AR"
    using z(1) baseH_nonneg [of img] ar by simp
  with fitH fitW z show ?thesis
    unfolding vH vW top left by (simp add: eq) linarith
qed

lemma autoAlign_loaded_no_face:
  "imgEl st = Some img \<Longrightarrow>
     autoAlign None st =
       (let W = real (naturalWidth img);
            H = real (naturalHeight img);
            initZoom = max 1 (min 5 (baseH img / baseH img));
            vH = baseH img / initZoom;
            vW = vH * TARGET_AR;
            left = max 0 (min (W / 2 - vW / 2) (W - vW));
            top = max 0 (min (H / 2 - faceYFrac st * vH) (H - vH))
        in st\<lparr>zoom := initZoom,
              crop := \<lparr>crop_x = - (left / W) * 100, crop_y = - (top / H) * 100\<rparr>\<rparr>)"
  by (simp add: autoAlign_def Let_def)

lemma ex_narrow_baseH: "baseH ex_narrow = 667"
  by (simp add: baseH_def ex_narrow_def Let_def Math_round_def TARGET_AR_def ASPECT_W_def
      ASPECT_H_def)

lemma ex_narrow_aligned:
  "autoAlign None ex_narrow_state =
     ex_narrow_state\<lparr>zoom := 1, crop := \<lparr>crop_x = 0, crop_y = - 24.654\<rparr>\<rparr>"
proof -
  have "imgEl ex_narrow_state = Some ex_narrow"
    by (simp add: ex_narrow_state_def)
  then show ?thesis
    by (simp add: autoAlign_loaded_no_face ex_narrow_baseH Let_def TARGET_AR_def ASPECT_W_def
        ASPECT_H_def)
      (simp add: ex_narrow_state_def ex_narrow_def)
qed

text \<open>
  C4 fails on the code. For a loaded 500\<times>1000 raster and no face, \<^verbatim>\<open>autoAlign\<close>
  sets zoom 1 and the offset (0, -24.654): \<^verbatim>\<open>Math.round(500 / 0.75) = 667\<close> rounds the
  base height up, the view is 500.25 pixels wide, and clamping \<^verbatim>\<open>left\<close> to
  \<^verbatim>\<open>W - viewW < 0\<close> and then to 0 leaves its right edge a quarter of a pixel outside
  the raster.
\<close>

theorem autoAlign_view_exceeds_width:
  "autoAlign None ex_narrow_state =
     ex_narrow_state\<lparr>zoom := 1, crop := \<lparr>crop_x = 0, crop_y = - 24.654\<rparr>\<rparr> \<and>
   curLeft ex_narrow (autoAlign None ex_narrow_state) = 0 \<and>
   viewW ex_narrow (autoAlign None ex_narrow_state) = 500.25 \<and>
   real (naturalWidth ex_narrow) <
     curLeft ex_narrow (autoAlign None ex_narrow_state) +
     viewW ex_narrow (autoAlign None ex_narrow_state)"
  unfolding ex_narrow_aligned
  by (simp add: curLeft_def viewW_def viewH_def ex_narrow_baseH TARGET_AR_def ASPECT_W_def
      ASPECT_H_def)
    (simp add: ex_narrow_def)

section \<open>Properties of the preview estimate\<close>

lemma step_seq_mono: "estimateSeq st \<le> estimateSeq (step e st)"
  by (cases e) (simp_all add: issue_estimate_def complete_estimate_def)

lemma step_stale: "stale n e \<Longrightarrow> n \<le> estimateSeq st \<Longrightarrow> step e st = st"
  by (cases e) (simp_all add: complete_estimate_def)

lemma run_drops_stale:
  "n \<le> estimateSeq st \<Longrightarrow> run (filter (\<lambda>e. \<not> stale n e) evs) st = run evs st"
proof (induction evs arbitrary: st)
  case Nil
  then show ?case by simp
next
  case (Cons e evs)
  show ?case
  proof (cases "stale n e")
    case True
    from step_stale [OF True Cons.prems] have "step e st = st" .
    with True Cons.IH [OF Cons.prems] show ?thesis
      by simp
  next
    case False
    from Cons.prems step_seq_mono [of st e] have "n \<le> estimateSeq (step e st)"
      by simp
    from Cons.IH [OF this] False show ?thesis
      by simp
  qed
qed

text \<open>
  C8. The counter \<^verbatim>\<open>estimateSeq\<close> holds the tag of the estimate issued last, and tags
  only grow. A completion writes the displayed size only if its tag is that counter.
  So once a later estimate has been issued, the completions of all earlier ones are
  without effect in whatever order they arrive: removing them from any continuation
  of the execution gives the same final state. For three calls A, B and C, only the
  completion of C can be applied after C has been issued.
\<close>

theorem estimate_supersession:
  "(n \<le> estimateSeq st \<longrightarrow> run (filter (\<lambda>e. \<not> stale n e) evs) st = run evs st) \<and>
   (complete_estimate mySeq best st \<noteq> st \<longrightarrow> mySeq = estimateSeq st) \<and>
   estimateSeq st \<le> estimateSeq (run evs st) \<and>
   (imgEl st \<noteq> None \<and> croppedAreaPx st \<noteq> None \<longrightarrow>
      estimateSeq (issue_estimate st) = estimateSeq st + 1)"
proof (intro conjI impI)
  assume "n \<le> estimateSeq st"
  then show "run (filter (\<lambda>e. \<not> stale n e) evs) st = run evs st"
    by (rule run_drops_stale)
next
  assume "complete_estimate mySeq best st \<noteq> st"
  then show "mySeq = estimateSeq st"
    by (simp add: complete_estimate_def split: if_splits)
next
  show "estimateSeq st \<le> estimateSeq (run evs st)"
  proof (induction evs arbitrary: st)
    case Nil
    then show ?case by simp
  next
    case (Cons e evs)
    from step_seq_mono [of st e] Cons.IH [of "step e st"] show ?case
      by simp
  qed
next
  assume "imgEl st \<noteq> None \<and> croppedAreaPx st \<noteq> None"
  then show "estimateSeq (issue_estimate st) = estimateSeq st + 1"
    by (simp add: issue_estimate_def)
qed

lemma ex_ready_issued:
  "run [Issue, Issue, Issue] ex_ready = ex_ready\<lparr>estimateSeq := 3\<rparr>"
  by (simp add: issue_estimate_def ex_ready_def)

theorem estimate_supersession_witness:
  "estimateSeq (issue_estimate ex_ready) = 1 \<and>
   estimateSeq (run [Issue, Issue, Issue] ex_ready) = 3 \<and>
   complete_estimate 3 (900, 1200) (run [Issue, Issue, Issue] ex_ready) \<noteq>
     run [Issue, Issue, Issue] ex_ready \<and>
   run [Complete 2 (600, 800), Complete 1 (300, 400), Complete 3 (900, 1200)]
     (run [Issue, Issue, Issue] ex_ready) =
   (run [Issue, Issue, Issue] ex_ready)\<lparr>outWidth := 900, outHeight := 1200\<rparr>"
proof -
  define st where "st = run [Issue, Issue, Issue] ex_ready"
  define evs where
    "evs = [Complete 2 (600, 800), Complete 1 (300, 400), Complete 3 (900, 1200)]"
  have ready: "imgEl ex_ready \<noteq> None \<and> croppedAreaPx ex_ready \<noteq> None"
    by (simp add: ex_ready_def)
  have "estimateSeq ex_ready = 0"
    by (simp add: ex_ready_def)
  with ready estimate_supersession [of 0 ex_ready "[]" 0 "(0, 0)"]
  have first: "estimateSeq (issue_estimate ex_ready) = 1"
    by simp
  have "outWidth st \<noteq> 900"
    unfolding st_def ex_ready_issued by (simp add: ex_ready_def)
  moreover have "outWidth (complete_estimate 3 (900, 1200) st) = 900"
    unfolding st_def ex_ready_issued by (simp add: complete_estimate_def)
  ultimately have applied: "complete_estimate 3 (900, 1200) st \<noteq> st"
    by auto
  with estimate_supersession [of 3 st evs 3 "(900, 1200)"]
  have seq: "estimateSeq st = 3"
    by simp
  have "filter (\<lambda>e. \<not> stale 3 e) evs = [Complete 3 (900, 1200)]"
    by (simp add: evs_def)
  with seq estimate_supersession [of 3 st evs 3 "(900, 1200)"]
  have "run evs st = run [Complete 3 (900, 1200)] st"
    by simp
  also have "\<dots> = st\<lparr>outWidth := 900, outHeight := 1200\<rparr>"
    using seq by (simp add: complete_estimate_def)
  finally show ?thesis
    using first seq applied unfolding st_def evs_def by simp
qed

end
